theory Spec2Isabelle
  imports Main
begin

section \<open>A fragment of the Python object model\<close>

text \<open>
  The exceptions the modelled code can raise. Every \<^verbatim>\<open>raise\<close>, failed
  \<^verbatim>\<open>assert\<close> and failing builtin of the source is a value \<open>Inl e\<close> of the
  result type \<open>pyerror + 'a\<close>.
\<close>

datatype pyerror =
    KeyError
  | StopIteration
  | TypeError
  | IndexError
  | ZeroDivisionError
  | AssertionError
  | BeartypeUtilLRUCacheException
  | BeartypeDecorHintPepException

text \<open>
  A class is its name and its direct bases. Subclassing is nominal: a class is a subclass
  of itself and of every class reachable through its bases (virtual subclasses registered
  with an abstract base class are outside the model).
\<close>

datatype pyclass = Class (cls_name: string) (cls_bases: "pyclass list")

fun issubclass_cls :: "pyclass \<Rightarrow> pyclass \<Rightarrow> bool" where
  "issubclass_cls (Class n bs) b =
     (Class n bs = b \<or> (\<exists>c \<in> set bs. issubclass_cls c b))"

definition object_cls :: pyclass where "object_cls = Class ''object'' []"
definition type_cls :: pyclass where "type_cls = Class ''type'' [object_cls]"
definition NoneType_cls :: pyclass where "NoneType_cls = Class ''NoneType'' [object_cls]"
definition int_cls :: pyclass where "int_cls = Class ''int'' [object_cls]"
definition bool_cls :: pyclass where "bool_cls = Class ''bool'' [int_cls]"
definition str_cls :: pyclass where "str_cls = Class ''str'' [object_cls]"
definition list_cls :: pyclass where "list_cls = Class ''list'' [object_cls]"
definition tuple_cls :: pyclass where "tuple_cls = Class ''tuple'' [object_cls]"

text \<open>
  The values: \<^verbatim>\<open>None\<close>, booleans, unbounded integers, strings, lists, tuples and
  classes themselves (a class is an object whose type is \<^verbatim>\<open>type\<close>).
\<close>

datatype pyobj =
    PyNone
  | PyBool bool
  | PyInt int
  | PyStr string
  | PyList "pyobj list"
  | PyTuple "pyobj list"
  | PyType pyclass

fun type_of :: "pyobj \<Rightarrow> pyclass" where
  "type_of PyNone = NoneType_cls"
| "type_of (PyBool _) = bool_cls"
| "type_of (PyInt _) = int_cls"
| "type_of (PyStr _) = str_cls"
| "type_of (PyList _) = list_cls"
| "type_of (PyTuple _) = tuple_cls"
| "type_of (PyType _) = type_cls"

text \<open>
  The builtin \<^verbatim>\<open>isinstance(obj, classinfo)\<close>: \<open>classinfo\<close> is a class or a
  (possibly nested) tuple of classes, scanned left to right until one matches; anything
  else met on the way raises \<^verbatim>\<open>TypeError\<close>.
\<close>

fun isinstance :: "pyobj \<Rightarrow> pyobj \<Rightarrow> pyerror + bool"
  and isinstance_any :: "pyobj \<Rightarrow> pyobj list \<Rightarrow> pyerror + bool" where
  "isinstance obj (PyType c) = Inr (issubclass_cls (type_of obj) c)"
| "isinstance obj (PyTuple cs) = isinstance_any obj cs"
| "isinstance obj PyNone = Inl TypeError"
| "isinstance obj (PyBool _) = Inl TypeError"
| "isinstance obj (PyInt _) = Inl TypeError"
| "isinstance obj (PyStr _) = Inl TypeError"
| "isinstance obj (PyList _) = Inl TypeError"
| "isinstance_any obj [] = Inr False"
| "isinstance_any obj (c # cs) =
     (case isinstance obj c of
        Inl e \<Rightarrow> Inl e
      | Inr True \<Rightarrow> Inr True
      | Inr False \<Rightarrow> isinstance_any obj cs)"

text \<open>
  The builtin \<^verbatim>\<open>issubclass(cls, classinfo)\<close>: its first argument must be a class
  (\<^verbatim>\<open>TypeError: issubclass() arg 1 must be a class\<close> otherwise).
\<close>

fun issubclass :: "pyobj \<Rightarrow> pyobj \<Rightarrow> pyerror + bool"
  and issubclass_any :: "pyobj \<Rightarrow> pyobj list \<Rightarrow> pyerror + bool" where
  "issubclass (PyType c) (PyType b) = Inr (issubclass_cls c b)"
| "issubclass (PyType c) (PyTuple bs) = issubclass_any (PyType c) bs"
| "issubclass (PyType c) PyNone = Inl TypeError"
| "issubclass (PyType c) (PyBool _) = Inl TypeError"
| "issubclass (PyType c) (PyInt _) = Inl TypeError"
| "issubclass (PyType c) (PyStr _) = Inl TypeError"
| "issubclass (PyType c) (PyList _) = Inl TypeError"
| "issubclass PyNone _ = Inl TypeError"
| "issubclass (PyBool _) _ = Inl TypeError"
| "issubclass (PyInt _) _ = Inl TypeError"
| "issubclass (PyStr _) _ = Inl TypeError"
| "issubclass (PyList _) _ = Inl TypeError"
| "issubclass (PyTuple _) _ = Inl TypeError"
| "issubclass_any obj [] = Inr False"
| "issubclass_any obj (b # bs) =
     (case issubclass obj b of
        Inl e \<Rightarrow> Inl e
      | Inr True \<Rightarrow> Inr True
      | Inr False \<Rightarrow> issubclass_any obj bs)"

text \<open>The integer an object denotes when it is an \<^verbatim>\<open>int\<close> (booleans included).\<close>

fun py_int_value :: "pyobj \<Rightarrow> int option" where
  "py_int_value (PyInt n) = Some n"
| "py_int_value (PyBool b) = Some (if b then 1 else 0)"
| "py_int_value _ = None"

section \<open>The LRU cache (\<^verbatim>\<open>beartype/_util/cache/utilcachelru.py\<close>)\<close>

text \<open>
  \<^verbatim>\<open>LRUCacheStrong\<close> subclasses \<^verbatim>\<open>dict\<close>, whose iteration order is insertion
  order. The dictionary is therefore an association list with distinct keys, oldest
  insertion first; the superclass methods the cache calls are modelled on it.
\<close>

type_synonym ('k, 'v) pydict = "('k \<times> 'v) list"

definition dict_contains :: "('k, 'v) pydict \<Rightarrow> 'k \<Rightarrow> bool" where
  "dict_contains d k = (map_of d k \<noteq> None)"

definition dict_getitem :: "('k, 'v) pydict \<Rightarrow> 'k \<Rightarrow> pyerror + 'v" where
  "dict_getitem d k = (case map_of d k of None \<Rightarrow> Inl KeyError | Some v \<Rightarrow> Inr v)"

definition dict_delitem :: "('k, 'v) pydict \<Rightarrow> 'k \<Rightarrow> pyerror + ('k, 'v) pydict" where
  "dict_delitem d k =
     (if dict_contains d k then Inr (filter (\<lambda>kv. fst kv \<noteq> k) d) else Inl KeyError)"

text \<open>Assigning to a present key keeps its position; a new key goes to the end.\<close>

fun dict_setitem :: "('k, 'v) pydict \<Rightarrow> 'k \<Rightarrow> 'v \<Rightarrow> ('k, 'v) pydict" where
  "dict_setitem [] k v = [(k, v)]"
| "dict_setitem (kv # d) k v =
     (if fst kv = k then (k, v) # d else kv # dict_setitem d k v)"

definition dict_len :: "('k, 'v) pydict \<Rightarrow> int" where
  "dict_len d = int (length d)"

text \<open>\<^verbatim>\<open>next(iter(d))\<close>: the first key, \<^verbatim>\<open>StopIteration\<close> on an empty dictionary.\<close>

definition dict_iter_next :: "('k, 'v) pydict \<Rightarrow> pyerror + 'k" where
  "dict_iter_next d = (case d of [] \<Rightarrow> Inl StopIteration | kv # _ \<Rightarrow> Inr (fst kv))"

record ('k, 'v) LRUCacheStrong =
  dict_items :: "('k, 'v) pydict"
  cache_size :: int

text \<open>
  \<^verbatim>\<open>__init__(self, size)\<close>: the two guards, then the empty dictionary and the
  capacity. The comparison \<^verbatim>\<open>size <= 0\<close> is only reached by an \<^verbatim>\<open>int\<close>.
\<close>

definition LRUCacheStrong_init :: "pyobj \<Rightarrow> pyerror + ('k, 'v) LRUCacheStrong" where
  "LRUCacheStrong_init size_arg =
     (case isinstance size_arg (PyType int_cls) of
        Inl e \<Rightarrow> Inl e
      | Inr False \<Rightarrow> Inl BeartypeUtilLRUCacheException
      | Inr True \<Rightarrow>
          (case py_int_value size_arg of
             None \<Rightarrow> Inl TypeError
           | Some n \<Rightarrow>
               if n \<le> 0 then Inl BeartypeUtilLRUCacheException
               else Inr \<lparr>dict_items = [], cache_size = n\<rparr>))"

text \<open>
  \<^verbatim>\<open>__getitem__(self, key)\<close>: look the value up (\<^verbatim>\<open>KeyError\<close> when absent),
  delete the key, set it again, return the value. The result is the value and the
  updated cache.
\<close>

definition LRUCacheStrong_getitem ::
  "('k, 'v) LRUCacheStrong \<Rightarrow> 'k \<Rightarrow> pyerror + ('v \<times> ('k, 'v) LRUCacheStrong)" where
  "LRUCacheStrong_getitem self key =
     (case dict_getitem (dict_items self) key of
        Inl e \<Rightarrow> Inl e
      | Inr v \<Rightarrow>
          (case dict_delitem (dict_items self) key of
             Inl e \<Rightarrow> Inl e
           | Inr d \<Rightarrow> Inr (v, self\<lparr>dict_items := dict_setitem d key v\<rparr>)))"

text \<open>
  \<^verbatim>\<open>__setitem__(self, key, value)\<close>: delete the key when present, set it, and when
  the length now exceeds the capacity delete the first key of the iteration order.
\<close>

definition LRUCacheStrong_setitem ::
  "('k, 'v) LRUCacheStrong \<Rightarrow> 'k \<Rightarrow> 'v \<Rightarrow> pyerror + ('k, 'v) LRUCacheStrong" where
  "LRUCacheStrong_setitem self key v =
     (case (if dict_contains (dict_items self) key
            then dict_delitem (dict_items self) key
            else Inr (dict_items self)) of
        Inl e \<Rightarrow> Inl e
      | Inr d \<Rightarrow>
          (let d' = dict_setitem d key v in
           if dict_len d' > cache_size self then
             (case dict_iter_next d' of
                Inl e \<Rightarrow> Inl e
              | Inr k0 \<Rightarrow>
                  (case dict_delitem d' k0 of
                     Inl e \<Rightarrow> Inl e
                   | Inr d'' \<Rightarrow> Inr (self\<lparr>dict_items := d''\<rparr>)))
           else Inr (self\<lparr>dict_items := d'\<rparr>)))"

text \<open>A run of \<^verbatim>\<open>cache[k] = v\<close> statements, stopping at the first exception.\<close>

fun setitems ::
  "('k, 'v) LRUCacheStrong \<Rightarrow> ('k \<times> 'v) list \<Rightarrow> pyerror + ('k, 'v) LRUCacheStrong" where
  "setitems self [] = Inr self"
| "setitems self (kv # kvs) =
     (case LRUCacheStrong_setitem self (fst kv) (snd kv) of
        Inl e \<Rightarrow> Inl e
      | Inr self' \<Rightarrow> setitems self' kvs)"

text \<open>
  The states the public interface can reach: distinct keys, a positive capacity and no
  more entries than the capacity.
\<close>

definition cache_ok :: "('k, 'v) LRUCacheStrong \<Rightarrow> bool" where
  "cache_ok self \<longleftrightarrow>
     distinct (map fst (dict_items self)) \<and> 1 \<le> cache_size self \<and>
     dict_len (dict_items self) \<le> cache_size self"


text \<open>
  What the refresh-then-set of both accessors leaves: the key's old entry removed and the
  new entry at the end of the iteration order.
\<close>

definition refreshed :: "('k, 'v) pydict \<Rightarrow> 'k \<Rightarrow> 'v \<Rightarrow> ('k, 'v) pydict" where
  "refreshed d k v = filter (\<lambda>kv. fst kv \<noteq> k) d @ [(k, v)]"


section \<open>Class tests (\<^verbatim>\<open>beartype/_util/cls/utilclstest.py\<close>)\<close>

text \<open>
  \<^verbatim>\<open>is_type_subclass(cls, base_classes)\<close>: the assertion on \<open>base_classes\<close>, then
  \<^verbatim>\<open>isinstance(cls, type) and issubclass(cls, base_classes)\<close>, the second operand
  evaluated only when the first is true. The tuple \<^verbatim>\<open>TestableTypesTuple\<close> the assertion
  tests against is imported from \<^verbatim>\<open>beartype._cave._cavefast\<close>, a module that is not
  modelled, so it is the parameter \<open>testable\<close>.
\<close>

definition is_type_subclass :: "pyobj \<Rightarrow> pyobj \<Rightarrow> pyobj \<Rightarrow> pyerror + bool" where
  "is_type_subclass testable cls base_classes =
     (case isinstance base_classes testable of
        Inl e \<Rightarrow> Inl e
      | Inr False \<Rightarrow> Inl AssertionError
      | Inr True \<Rightarrow>
          (case isinstance cls (PyType type_cls) of
             Inl e \<Rightarrow> Inl e
           | Inr False \<Rightarrow> Inr False
           | Inr True \<Rightarrow> issubclass cls base_classes))"

text \<open>
  The arguments the docstring allows for \<open>base_classes\<close>: a single class, or a tuple of
  one or more classes; and the classes such an argument names.
\<close>

fun is_class :: "pyobj \<Rightarrow> bool" where
  "is_class (PyType _) = True"
| "is_class _ = False"

fun valid_base_classes :: "pyobj \<Rightarrow> bool" where
  "valid_base_classes (PyType _) = True"
| "valid_base_classes (PyTuple bs) = (bs \<noteq> [] \<and> list_all is_class bs)"
| "valid_base_classes _ = False"

fun classes_of :: "pyobj \<Rightarrow> pyclass list" where
  "classes_of (PyType b) = [b]"
| "classes_of (PyTuple bs) = concat (map classes_of bs)"
| "classes_of _ = []"

section \<open>Python expressions used by the code snippets\<close>

text \<open>Truthiness, as \<^verbatim>\<open>not x\<close> and the boolean operators test it.\<close>

fun py_truth :: "pyobj \<Rightarrow> bool" where
  "py_truth PyNone = False"
| "py_truth (PyBool b) = b"
| "py_truth (PyInt n) = (n \<noteq> 0)"
| "py_truth (PyStr s) = (s \<noteq> [])"
| "py_truth (PyList xs) = (xs \<noteq> [])"
| "py_truth (PyTuple xs) = (xs \<noteq> [])"
| "py_truth (PyType _) = True"

text \<open>The items of a sequence; a string's items are its one-character strings.\<close>

fun py_items :: "pyobj \<Rightarrow> pyobj list option" where
  "py_items (PyStr s) = Some (map (\<lambda>c. PyStr [c]) s)"
| "py_items (PyList xs) = Some xs"
| "py_items (PyTuple xs) = Some xs"
| "py_items _ = None"

definition py_len :: "pyobj \<Rightarrow> pyerror + int" where
  "py_len x = (case py_items x of None \<Rightarrow> Inl TypeError | Some xs \<Rightarrow> Inr (int (length xs)))"

text \<open>\<^verbatim>\<open>a % b\<close> on integers: the sign of the result is the divisor's, as in HOL.\<close>

definition py_mod :: "int \<Rightarrow> int \<Rightarrow> pyerror + int" where
  "py_mod a b = (if b = 0 then Inl ZeroDivisionError else Inr (a mod b))"

text \<open>
  \<^verbatim>\<open>x[i]\<close> on a sequence of \<open>len\<close> items: the indices \<open>- len \<le> i < len\<close> are
  valid, the negative ones counting from the end; any other index raises.
\<close>

definition py_index :: "int \<Rightarrow> int \<Rightarrow> int option" where
  "py_index len i =
     (if i < - len \<or> len \<le> i then None
      else if i < 0 then Some (i + len)
      else Some i)"

definition py_getitem :: "pyobj \<Rightarrow> int \<Rightarrow> pyerror + pyobj" where
  "py_getitem x i =
     (case py_items x of
        None \<Rightarrow> Inl TypeError
      | Some xs \<Rightarrow>
          (case py_index (int (length xs)) i of
             None \<Rightarrow> Inl IndexError
           | Some j \<Rightarrow> Inr (xs ! nat j)))"

text \<open>
  \<^verbatim>\<open>a and b\<close> and \<^verbatim>\<open>a or b\<close> on boolean operands: the right operand is looked at
  only when the left one does not decide, and an exception in the operand evaluated
  propagates.
\<close>

definition py_and :: "pyerror + bool \<Rightarrow> pyerror + bool \<Rightarrow> pyerror + bool" where
  "py_and a b = (case a of Inl e \<Rightarrow> Inl e | Inr False \<Rightarrow> Inr False | Inr True \<Rightarrow> b)"

definition py_or :: "pyerror + bool \<Rightarrow> pyerror + bool \<Rightarrow> pyerror + bool" where
  "py_or a b = (case a of Inl e \<Rightarrow> Inl e | Inr True \<Rightarrow> Inr True | Inr False \<Rightarrow> b)"

text \<open>A chain \<^verbatim>\<open>a and b and ...\<close>, respectively \<^verbatim>\<open>a or b or ...\<close>, left to right.\<close>

fun py_conj :: "(pyerror + bool) list \<Rightarrow> pyerror + bool" where
  "py_conj [] = Inr True"
| "py_conj (a # as) = py_and a (py_conj as)"

fun py_disj :: "(pyerror + bool) list \<Rightarrow> pyerror + bool" where
  "py_disj [] = Inr False"
| "py_disj (a # as) = py_or a (py_disj as)"

section \<open>The code snippets (\<^verbatim>\<open>beartype/_decor/_code/_pep/_pepsnip.py\<close>)\<close>

subsection \<open>Placeholders\<close>

definition PEP_CODE_PITH_ROOT_PARAM_NAME_PLACEHOLDER :: string where
  "PEP_CODE_PITH_ROOT_PARAM_NAME_PLACEHOLDER = ''?|PITH_ROOT_NAME`^''"

definition PEP_CODE_HINT_CHILD_PLACEHOLDER_PREFIX :: string where
  "PEP_CODE_HINT_CHILD_PLACEHOLDER_PREFIX = ''@[''"

definition PEP_CODE_HINT_CHILD_PLACEHOLDER_SUFFIX :: string where
  "PEP_CODE_HINT_CHILD_PLACEHOLDER_SUFFIX = '')!''"

definition PEP_CODE_HINT_FORWARDREF_UNQUALIFIED_PLACEHOLDER_PREFIX :: string where
  "PEP_CODE_HINT_FORWARDREF_UNQUALIFIED_PLACEHOLDER_PREFIX = ''${FORWARDREF:''"

definition PEP_CODE_HINT_FORWARDREF_UNQUALIFIED_PLACEHOLDER_SUFFIX :: string where
  "PEP_CODE_HINT_FORWARDREF_UNQUALIFIED_PLACEHOLDER_SUFFIX = '']?''"

text \<open>\<open>is_substring p s\<close>: \<open>p\<close> occurs in \<open>s\<close> (Python's \<^verbatim>\<open>p in s\<close>).\<close>

fun is_prefix :: "string \<Rightarrow> string \<Rightarrow> bool" where
  "is_prefix [] s = True"
| "is_prefix (c # p) [] = False"
| "is_prefix (c # p) (d # s) = (c = d \<and> is_prefix p s)"

fun is_substring :: "string \<Rightarrow> string \<Rightarrow> bool" where
  "is_substring p [] = (p = [])"
| "is_substring p (c # s) = (is_prefix p (c # s) \<or> is_substring p s)"

text \<open>The delimiters of the three placeholder families.\<close>

definition child_delimiters :: "string list" where
  "child_delimiters =
     [PEP_CODE_HINT_CHILD_PLACEHOLDER_PREFIX, PEP_CODE_HINT_CHILD_PLACEHOLDER_SUFFIX]"

definition forwardref_delimiters :: "string list" where
  "forwardref_delimiters =
     [PEP_CODE_HINT_FORWARDREF_UNQUALIFIED_PLACEHOLDER_PREFIX,
      PEP_CODE_HINT_FORWARDREF_UNQUALIFIED_PLACEHOLDER_SUFFIX]"

definition root_name_delimiters :: "string list" where
  "root_name_delimiters = [PEP_CODE_PITH_ROOT_PARAM_NAME_PLACEHOLDER]"

text \<open>Two families collide when a delimiter of one occurs in a delimiter of the other.\<close>

definition families_collide :: "string list \<Rightarrow> string list \<Rightarrow> bool" where
  "families_collide f g =
     list_ex (\<lambda>a. list_ex (\<lambda>b. is_substring a b \<or> is_substring b a) g) f"

text \<open>
  A placeholder of the child-slot family and of the forward-reference family: the prefix,
  a body (the child's identifier, the unqualified class name) and the suffix. The root-name
  family has the one placeholder above.
\<close>

definition child_placeholder :: "string \<Rightarrow> string" where
  "child_placeholder body =
     PEP_CODE_HINT_CHILD_PLACEHOLDER_PREFIX @ body @ PEP_CODE_HINT_CHILD_PLACEHOLDER_SUFFIX"

definition forwardref_placeholder :: "string \<Rightarrow> string" where
  "forwardref_placeholder body =
     PEP_CODE_HINT_FORWARDREF_UNQUALIFIED_PLACEHOLDER_PREFIX @ body @
     PEP_CODE_HINT_FORWARDREF_UNQUALIFIED_PLACEHOLDER_SUFFIX"

text \<open>\<open>is_suffix p s\<close>: \<open>s\<close> ends with \<open>p\<close> (Python's \<^verbatim>\<open>s.endswith(p)\<close>).\<close>

definition is_suffix :: "string \<Rightarrow> string \<Rightarrow> bool" where
  "is_suffix p s = is_prefix (rev p) (rev s)"

subsection \<open>Root-name substitution\<close>

text \<open>
  Python's \<^verbatim>\<open>s.replace(old, new)\<close>: the occurrences of \<open>old\<close> are found scanning left
  to right, each search resuming after the previous match; an empty \<open>old\<close> matches before
  every character and at the end.
\<close>

fun replace_scan :: "string \<Rightarrow> string \<Rightarrow> string \<Rightarrow> string" where
  "replace_scan old new [] = []"
| "replace_scan old new (c # cs) =
     (if old \<noteq> [] \<and> is_prefix old (c # cs)
      then new @ replace_scan old new (drop (length old - 1) cs)
      else c # replace_scan old new cs)"

definition str_replace :: "string \<Rightarrow> string \<Rightarrow> string \<Rightarrow> string" where
  "str_replace s old new =
     (if old = [] then new @ concat (map (\<lambda>c. c # new) s) else replace_scan old new s)"


text \<open>
  The characters of a Python identifier: ASCII letters, digits and the underscore, and the
  bytes of non-ASCII letters; an identifier is not empty and does not start with a digit.
\<close>

definition is_identifier_char :: "char \<Rightarrow> bool" where
  "is_identifier_char c \<longleftrightarrow>
     c \<in> set ''abcdefghijklmnopqrstuvwxyzABCDEFGHIJKLMNOPQRSTUVWXYZ_0123456789'' \<or>
     128 \<le> (of_char c :: nat)"


subsection \<open>The root snippets as text\<close>
















subsection \<open>Snippets as the expressions they denote\<close>

text \<open>
  A snippet is Python source with format fields. Each snippet below is the value of that
  source as a function of what its fields stand for: \<open>pith_curr_expr\<close> is the result of
  evaluating the expression that yields the current pith (it may raise),
  \<open>pith_curr_var\<close> the value bound by the assignment expression
  \<^verbatim>\<open>{pith_curr_var_name} := {pith_curr_expr}\<close>, \<open>hint_curr_expr\<close> the class or tuple
  of classes tested against, and a child placeholder the value of the child's code, which
  reads the variable the parent bound. The variable \<^verbatim>\<open>__beartype_random_int\<close> is the
  argument \<open>random_int\<close>.
\<close>

definition PEP484_CODE_HINT_INSTANCE :: "pyerror + pyobj \<Rightarrow> pyobj \<Rightarrow> pyerror + bool" where
  "PEP484_CODE_HINT_INSTANCE pith_curr_expr hint_curr_expr =
     (case pith_curr_expr of
        Inl e \<Rightarrow> Inl e
      | Inr pith \<Rightarrow> isinstance pith hint_curr_expr)"

text \<open>
  \<^verbatim>\<open>isinstance({pith_curr_assign_expr}, {hint_curr_expr}) and
  (not {pith_curr_var_name} or {hint_child_placeholder})\<close>
\<close>

definition PEP484585_CODE_HINT_SEQUENCE_ARGS_1 ::
  "pyerror + pyobj \<Rightarrow> pyobj \<Rightarrow> (pyobj \<Rightarrow> pyerror + bool) \<Rightarrow> pyerror + bool" where
  "PEP484585_CODE_HINT_SEQUENCE_ARGS_1 pith_curr_expr hint_curr_expr hint_child_placeholder =
     (case pith_curr_expr of
        Inl e \<Rightarrow> Inl e
      | Inr pith_curr_var \<Rightarrow>
          py_and (isinstance pith_curr_var hint_curr_expr)
            (py_or (Inr (\<not> py_truth pith_curr_var))
               (hint_child_placeholder pith_curr_var)))"

text \<open>\<^verbatim>\<open>{pith_curr_var_name}[__beartype_random_int % len({pith_curr_var_name})]\<close>\<close>

definition PEP484585_CODE_HINT_SEQUENCE_ARGS_1_PITH_CHILD_EXPR ::
  "pyobj \<Rightarrow> int \<Rightarrow> pyerror + pyobj" where
  "PEP484585_CODE_HINT_SEQUENCE_ARGS_1_PITH_CHILD_EXPR pith_curr_var random_int =
     (case py_len pith_curr_var of
        Inl e \<Rightarrow> Inl e
      | Inr n \<Rightarrow>
          (case py_mod random_int n of
             Inl e \<Rightarrow> Inl e
           | Inr i \<Rightarrow> py_getitem pith_curr_var i))"

text \<open>
  The fixed-length tuple snippets each end in \<^verbatim>\<open>and\<close>: each is one conjunct of the
  chain the caller closes with the suffix. \<^verbatim>\<open>isinstance({pith_curr_assign_expr}, tuple)\<close>,
  \<^verbatim>\<open>not {pith_curr_var_name}\<close>, \<^verbatim>\<open>len({pith_curr_var_name}) == {hint_childs_len}\<close>,
  \<^verbatim>\<open>{hint_child_placeholder}\<close> and \<^verbatim>\<open>{pith_curr_var_name}[{pith_child_index}]\<close>.
\<close>

definition PEP484585_CODE_HINT_TUPLE_FIXED_PREFIX :: "pyobj \<Rightarrow> pyerror + bool" where
  "PEP484585_CODE_HINT_TUPLE_FIXED_PREFIX pith_curr_var =
     isinstance pith_curr_var (PyType tuple_cls)"

definition PEP484585_CODE_HINT_TUPLE_FIXED_EMPTY :: "pyobj \<Rightarrow> pyerror + bool" where
  "PEP484585_CODE_HINT_TUPLE_FIXED_EMPTY pith_curr_var = Inr (\<not> py_truth pith_curr_var)"

definition PEP484585_CODE_HINT_TUPLE_FIXED_LEN :: "pyobj \<Rightarrow> int \<Rightarrow> pyerror + bool" where
  "PEP484585_CODE_HINT_TUPLE_FIXED_LEN pith_curr_var hint_childs_len =
     (case py_len pith_curr_var of
        Inl e \<Rightarrow> Inl e
      | Inr n \<Rightarrow> Inr (n = hint_childs_len))"

definition PEP484585_CODE_HINT_TUPLE_FIXED_NONEMPTY_CHILD :: "pyerror + bool \<Rightarrow> pyerror + bool" where
  "PEP484585_CODE_HINT_TUPLE_FIXED_NONEMPTY_CHILD hint_child_placeholder = hint_child_placeholder"

definition PEP484585_CODE_HINT_TUPLE_FIXED_NONEMPTY_PITH_CHILD_EXPR ::
  "pyobj \<Rightarrow> int \<Rightarrow> pyerror + pyobj" where
  "PEP484585_CODE_HINT_TUPLE_FIXED_NONEMPTY_PITH_CHILD_EXPR pith_curr_var pith_child_index =
     py_getitem pith_curr_var pith_child_index"

text \<open>
  The union snippets each end in \<^verbatim>\<open>or\<close>: each is one disjunct.
  \<^verbatim>\<open>{hint_child_placeholder}\<close> and \<^verbatim>\<open>isinstance({pith_curr_expr}, {hint_curr_expr})\<close>.
\<close>

definition PEP484_CODE_HINT_UNION_CHILD_PEP :: "pyerror + bool \<Rightarrow> pyerror + bool" where
  "PEP484_CODE_HINT_UNION_CHILD_PEP hint_child_placeholder = hint_child_placeholder"

definition PEP484_CODE_HINT_UNION_CHILD_NONPEP :: "pyerror + pyobj \<Rightarrow> pyobj \<Rightarrow> pyerror + bool" where
  "PEP484_CODE_HINT_UNION_CHILD_NONPEP pith_curr_expr hint_curr_expr =
     (case pith_curr_expr of
        Inl e \<Rightarrow> Inl e
      | Inr pith \<Rightarrow> isinstance pith hint_curr_expr)"

section \<open>The hint code generator\<close>

text \<open>
  Modelled from the spec: the hint tree the generator consumes (the generator,
  \<^verbatim>\<open>pep_code_check_hint\<close>, lives in a module whose source is not available). It is the
  spec's \<open>HintNode\<close> (3), restricted to the kinds whose snippets are modelled above:
  instance check, union, single-parameter sequence with its origin, and fixed-length tuple
  (without children: the explicit empty-tuple form).
\<close>

datatype hint =
    HintInstance pyclass
  | HintUnion "hint list"
  | HintSequence pyclass hint
  | HintTupleFixed "hint list"

text \<open>
  Modelled from the spec: the split of a union's children (4.1) into the plain-type ones,
  whose classes are collected into one tuple, and the others.
\<close>

fun is_plain :: "hint \<Rightarrow> bool" where
  "is_plain (HintInstance _) = True"
| "is_plain _ = False"

fun plain_classes :: "hint list \<Rightarrow> pyobj list" where
  "plain_classes [] = []"
| "plain_classes (HintInstance c # hs) = PyType c # plain_classes hs"
| "plain_classes (_ # hs) = plain_classes hs"

text \<open>
  Modelled from the spec: the assembly of a union's code (4.1). The plain-type children
  come first, in one \<^verbatim>\<open>isinstance\<close> against the tuple of all of them, then the other
  children one by one; the snippets' docstrings have the caller strip the trailing
  \<^verbatim>\<open>or\<close> of the last one, which leaves a chain of \<^verbatim>\<open>or\<close>.
\<close>

definition union_code ::
  "pyobj list \<Rightarrow> (pyerror + bool) list \<Rightarrow> pyerror + pyobj \<Rightarrow> pyerror + bool" where
  "union_code plain pep_children pith_curr_expr =
     py_disj
       ((if plain = [] then []
         else [PEP484_CODE_HINT_UNION_CHILD_NONPEP pith_curr_expr (PyTuple plain)]) @
        map PEP484_CODE_HINT_UNION_CHILD_PEP pep_children)"

text \<open>
  Modelled from the spec: the assembly of a fixed-length tuple's code (4.1). The prefix
  binds the pith and tests it to be a tuple; then comes the emptiness test for the
  empty-tuple form, else the length test and each child on the item at its index; the
  trailing \<^verbatim>\<open>and\<close> of the last snippet is stripped, which leaves a chain of
  \<^verbatim>\<open>and\<close>.
\<close>

definition tuple_fixed_code ::
  "((pyerror + pyobj) \<Rightarrow> pyerror + bool) list \<Rightarrow> pyerror + pyobj \<Rightarrow> pyerror + bool" where
  "tuple_fixed_code children pith_curr_expr =
     (case pith_curr_expr of
        Inl e \<Rightarrow> Inl e
      | Inr pith_curr_var \<Rightarrow>
          py_conj
            (PEP484585_CODE_HINT_TUPLE_FIXED_PREFIX pith_curr_var #
             (if children = [] then [PEP484585_CODE_HINT_TUPLE_FIXED_EMPTY pith_curr_var]
              else PEP484585_CODE_HINT_TUPLE_FIXED_LEN pith_curr_var (int (length children)) #
                map (\<lambda>(i, child).
                      PEP484585_CODE_HINT_TUPLE_FIXED_NONEMPTY_CHILD
                        (child (PEP484585_CODE_HINT_TUPLE_FIXED_NONEMPTY_PITH_CHILD_EXPR
                                  pith_curr_var (int i))))
                  (enumerate 0 children))))"

text \<open>
  Modelled from the spec: the generator (4.1), as the value of the code it emits for a hint
  on a pith expression. An instance check is \<^verbatim>\<open>isinstance(pith, origin)\<close>; a sequence's
  child checks the randomly indexed item of the variable the sequence snippet binds; a
  union without children is malformed, for which the generator raises.
\<close>

fun pep_code_check_hint :: "int \<Rightarrow> hint \<Rightarrow> pyerror + pyobj \<Rightarrow> pyerror + bool" where
  "pep_code_check_hint random_int (HintInstance c) pith_curr_expr =
     PEP484_CODE_HINT_INSTANCE pith_curr_expr (PyType c)"
| "pep_code_check_hint random_int (HintUnion hs) pith_curr_expr =
     (if hs = [] then Inl BeartypeDecorHintPepException
      else union_code (plain_classes hs)
             (map (\<lambda>h. pep_code_check_hint random_int h pith_curr_expr)
                (filter (\<lambda>h. \<not> is_plain h) hs))
             pith_curr_expr)"
| "pep_code_check_hint random_int (HintSequence origin h) pith_curr_expr =
     PEP484585_CODE_HINT_SEQUENCE_ARGS_1 pith_curr_expr (PyType origin)
       (\<lambda>pith_curr_var.
          pep_code_check_hint random_int h
            (PEP484585_CODE_HINT_SEQUENCE_ARGS_1_PITH_CHILD_EXPR pith_curr_var random_int))"
| "pep_code_check_hint random_int (HintTupleFixed hs) pith_curr_expr =
     tuple_fixed_code (map (\<lambda>h e. pep_code_check_hint random_int h e) hs) pith_curr_expr"

text \<open>
  Modelled from the spec: the check of a value, the generated expression evaluated on the
  root pith with the call's random integer.
\<close>

definition check :: "hint \<Rightarrow> int \<Rightarrow> pyobj \<Rightarrow> pyerror + bool" where
  "check h random_int v = pep_code_check_hint random_int h (Inr v)"



section \<open>Properties of the LRU cache\<close>

lemma dict_contains_iff: "dict_contains d k \<longleftrightarrow> k \<in> fst ` set d"
  by (simp add: dict_contains_def map_of_eq_None_iff)

lemma dict_setitem_absent: "k \<notin> fst ` set d \<Longrightarrow> dict_setitem d k v = d @ [(k, v)]"
  by (induction d) auto

lemma filter_absent: "k \<notin> fst ` set d \<Longrightarrow> filter (\<lambda>kv. fst kv \<noteq> k) d = d"
  by (induction d) auto

lemma distinct_refreshed:
  "distinct (map fst d) \<Longrightarrow> distinct (map fst (refreshed d k v))"
  by (auto simp: refreshed_def distinct_map_filter)

lemma length_refreshed_le: "length (refreshed d k v) \<le> Suc (length d)"
  by (simp add: refreshed_def)

lemma setitem_eq:
  assumes "distinct (map fst (dict_items self))"
  shows "LRUCacheStrong_setitem self k v =
    Inr (self\<lparr>dict_items :=
      (if int (length (refreshed (dict_items self) k v)) > cache_size self
       then tl (refreshed (dict_items self) k v)
       else refreshed (dict_items self) k v)\<rparr>)"
proof -
  let ?d = "filter (\<lambda>kv. fst kv \<noteq> k) (dict_items self)"
  have pre: "(if dict_contains (dict_items self) k
            then dict_delitem (dict_items self) k
            else Inr (dict_items self)) = Inr ?d"
    by (simp add: dict_delitem_def dict_contains_iff filter_absent)
  have set: "dict_setitem ?d k v = refreshed (dict_items self) k v"
    unfolding refreshed_def by (rule dict_setitem_absent) auto
  have dist: "distinct (map fst (refreshed (dict_items self) k v))"
    using assms by (rule distinct_refreshed)
  have evict: "dict_iter_next d = Inr (fst (hd d)) \<and> dict_delitem d (fst (hd d)) = Inr (tl d)"
    if "d \<noteq> []" "distinct (map fst d)" for d :: "('k, 'v) pydict"
    using that by (cases d) (auto simp: dict_iter_next_def dict_delitem_def dict_contains_iff filter_absent)
  have ne: "refreshed (dict_items self) k v \<noteq> []" by (simp add: refreshed_def)
  show ?thesis
    unfolding LRUCacheStrong_setitem_def pre
    using evict[OF ne dist] by (simp add: set Let_def dict_len_def)
qed


lemma setitem_cache_ok:
  assumes "cache_ok self" "LRUCacheStrong_setitem self k v = Inr self'"
  shows "cache_ok self'"
proof -
  have d: "distinct (map fst (dict_items self))" using assms(1) by (simp add: cache_ok_def)
  have dist: "distinct (map fst (refreshed (dict_items self) k v))"
    using d by (rule distinct_refreshed)
  show ?thesis
    using assms dist length_refreshed_le[of "dict_items self" k v]
    unfolding setitem_eq[OF d] cache_ok_def dict_len_def
    by (auto simp: distinct_tl map_tl split: if_splits)
qed

lemma setitem_absent_eq:
  assumes "cache_ok self" "k \<notin> fst ` set (dict_items self)"
  shows "LRUCacheStrong_setitem self k v =
    Inr (self\<lparr>dict_items :=
      drop (Suc (length (dict_items self)) - nat (cache_size self)) (dict_items self @ [(k, v)])\<rparr>)"
proof -
  have d: "distinct (map fst (dict_items self))" using assms(1) by (simp add: cache_ok_def)
  have r: "refreshed (dict_items self) k v = dict_items self @ [(k, v)]"
    using assms(2) by (simp add: refreshed_def filter_absent)
  have le: "int (length (dict_items self)) \<le> cache_size self" "1 \<le> cache_size self"
    using assms(1) by (simp_all add: cache_ok_def dict_len_def)
  show ?thesis
  proof (cases "int (length (dict_items self)) = cache_size self")
    case True
    then have one: "Suc (length (dict_items self)) - nat (cache_size self) = 1" by linarith
    have "dict_items self \<noteq> []" using True le(2) by auto
    then have "tl (dict_items self @ [(k, v)]) = drop 1 (dict_items self @ [(k, v)])"
      by (cases "dict_items self") simp_all
    then show ?thesis unfolding setitem_eq[OF d] r one using True by simp
  next
    case False
    then have "Suc (length (dict_items self)) - nat (cache_size self) = 0" using le by linarith
    then show ?thesis unfolding setitem_eq[OF d] r using False le by simp
  qed
qed


lemma setitems_fresh:
  assumes "cache_ok self" "distinct (map fst (dict_items self @ kvs))"
  shows "setitems self kvs =
    Inr (self\<lparr>dict_items :=
      drop (length (dict_items self) + length kvs - nat (cache_size self))
        (dict_items self @ kvs)\<rparr>)"
  using assms
proof (induction kvs arbitrary: self)
  case Nil
  then have "length (dict_items self) - nat (cache_size self) = 0"
    unfolding cache_ok_def dict_len_def by linarith
  then show ?case by simp
next
  case (Cons kv kvs)
  obtain k v where kv: "kv = (k, v)" by (cases kv)
  let ?n = "length (dict_items self)"
  let ?C = "nat (cache_size self)"
  let ?self' = "self\<lparr>dict_items := drop (Suc ?n - ?C) (dict_items self @ [(k, v)])\<rparr>"
  have absent: "k \<notin> fst ` set (dict_items self)"
    using Cons.prems(2) kv by auto
  have step: "LRUCacheStrong_setitem self k v = Inr ?self'"
    using Cons.prems(1) absent by (rule setitem_absent_eq)
  have ok': "cache_ok ?self'"
    using Cons.prems(1) step by (rule setitem_cache_ok)
  have "int ?n \<le> cache_size self \<and> 1 \<le> cache_size self"
    using Cons.prems(1) by (simp add: cache_ok_def dict_len_def)
  then have le: "?n \<le> ?C" "1 \<le> ?C" by linarith+
  have a_le: "Suc ?n - ?C \<le> length (dict_items self @ [(k, v)])" by simp
  have "drop (Suc ?n - ?C) ((dict_items self @ [(k, v)]) @ kvs) =
      drop (Suc ?n - ?C) (dict_items self @ [(k, v)]) @ kvs"
    using a_le by (simp only: drop_append diff_is_0_eq[THEN iffD2] drop_0)
  then have app: "dict_items ?self' @ kvs = drop (Suc ?n - ?C) (dict_items self @ kv # kvs)"
    by (simp add: kv)
  have dist': "distinct (map fst (dict_items ?self' @ kvs))"
    unfolding app using Cons.prems(2) by (simp only: drop_map[symmetric] distinct_drop)
  have len': "length (dict_items ?self') = Suc ?n - (Suc ?n - ?C)" by simp
  have idx: "(Suc ?n - (Suc ?n - ?C) + length kvs - ?C) + (Suc ?n - ?C) =
      ?n + Suc (length kvs) - ?C"
  proof (cases "?n = ?C")
    case True
    then have "Suc ?n - ?C = 1" by simp
    then show ?thesis using True by simp
  next
    case False
    then have "Suc ?n - ?C = 0" using le by simp
    then show ?thesis by simp
  qed
  have "setitems self (kv # kvs) = setitems ?self' kvs"
    by (simp add: kv step)
  also have "\<dots> = Inr (?self'\<lparr>dict_items :=
      drop (length (dict_items ?self') + length kvs - nat (cache_size ?self'))
        (dict_items ?self' @ kvs)\<rparr>)"
    using ok' dist' by (rule Cons.IH)
  also have "drop (length (dict_items ?self') + length kvs - nat (cache_size ?self'))
        (dict_items ?self' @ kvs) =
      drop (?n + length (kv # kvs) - ?C) (dict_items self @ kv # kvs)"
    unfolding app drop_drop len' using idx by simp
  finally show ?case by simp
qed


lemma init_cache_ok:
  "LRUCacheStrong_init s = Inr (self :: ('k, 'v) LRUCacheStrong) \<Longrightarrow> cache_ok self"
  by (auto simp: LRUCacheStrong_init_def cache_ok_def dict_len_def
           split: sum.splits bool.splits option.splits if_splits)

lemma getitem_eq:
  assumes "map_of (dict_items self) k = Some v"
  shows "LRUCacheStrong_getitem self k =
    Inr (v, self\<lparr>dict_items := refreshed (dict_items self) k v\<rparr>)"
proof -
  have "dict_setitem (filter (\<lambda>kv. fst kv \<noteq> k) (dict_items self)) k v =
      refreshed (dict_items self) k v"
    unfolding refreshed_def by (rule dict_setitem_absent) auto
  then show ?thesis
    using assms
    by (simp add: LRUCacheStrong_getitem_def dict_getitem_def dict_delitem_def dict_contains_def)
qed

lemma length_filter_present:
  "distinct (map fst d) \<Longrightarrow> k \<in> fst ` set d \<Longrightarrow>
   Suc (length (filter (\<lambda>kv. fst kv \<noteq> k) d)) = length d"
  by (induction d) (auto simp: filter_absent)

lemma length_refreshed_present:
  "distinct (map fst d) \<Longrightarrow> k \<in> fst ` set d \<Longrightarrow> length (refreshed d k v) = length d"
  by (simp add: refreshed_def length_filter_present)

lemma getitem_cache_ok:
  assumes "cache_ok self" "LRUCacheStrong_getitem self k = Inr (v, self')"
  shows "cache_ok self'"
proof -
  from assms(2) obtain w where w: "map_of (dict_items self) k = Some w"
    by (auto simp: LRUCacheStrong_getitem_def dict_getitem_def split: option.splits)
  have "k \<in> fst ` set (dict_items self)"
    using w by (metis domI dom_map_of_conv_image_fst)
  moreover have "distinct (map fst (dict_items self))"
    using assms(1) by (simp add: cache_ok_def)
  ultimately have len: "length (refreshed (dict_items self) k w) = length (dict_items self)"
    by (simp add: length_refreshed_present)
  show ?thesis
    using assms len distinct_refreshed[of "dict_items self" k w]
    unfolding getitem_eq[OF w] cache_ok_def dict_len_def by auto
qed


text \<open>
  Claim C1. Take a cache in a reachable state, of capacity \<open>C \<ge> 1\<close>, and \<open>C + 1\<close>
  entries with pairwise distinct keys, none of them in the cache, set one after the other.
  Every assignment succeeds. Before the last one the cache holds exactly the first \<open>C\<close> new
  entries and is full; the last assignment removes exactly one entry, the first of the
  iteration order (the least recently used, which is the first key inserted), and
  appends the new one. Afterwards the first inserted key is absent and the other \<open>C\<close> are
  present with their values, in insertion order, most recent last.
\<close>

theorem lru_overflow_evicts_first:
  assumes ok: "cache_ok self"
    and fresh: "distinct (map fst (dict_items self @ kvs))"
    and len: "int (length kvs) = cache_size self + 1"
  shows "\<exists>before final.
      setitems self (butlast kvs) = Inr before \<and>
      dict_items before = butlast kvs \<and>
      dict_len (dict_items before) = cache_size self \<and>
      LRUCacheStrong_setitem before (fst (last kvs)) (snd (last kvs)) = Inr final \<and>
      setitems self kvs = Inr final \<and>
      cache_size final = cache_size self \<and>
      dict_items final = tl kvs \<and>
      dict_items final = tl (dict_items before) @ [last kvs] \<and>
      \<not> dict_contains (dict_items final) (fst (hd kvs)) \<and>
      (\<forall>kv \<in> set (tl kvs). dict_getitem (dict_items final) (fst kv) = Inr (snd kv))"
proof -
  let ?n = "length (dict_items self)"
  let ?C = "nat (cache_size self)"
  let ?before = "self\<lparr>dict_items := butlast kvs\<rparr>"
  let ?final = "self\<lparr>dict_items := tl kvs\<rparr>"
  have C: "1 \<le> cache_size self" "int ?n \<le> cache_size self"
    using ok by (simp_all add: cache_ok_def dict_len_def)
  have lk: "length kvs = Suc ?C" using len C by linarith
  then have ne: "kvs \<noteq> []" by auto
  have lb: "length (butlast kvs) = ?C" using lk by simp
  have dist_kvs: "distinct (map fst kvs)" using fresh by simp
  have fresh_b: "distinct (map fst (dict_items self @ butlast kvs))"
  proof -
    have "dict_items self @ kvs = (dict_items self @ butlast kvs) @ [last kvs]"
      using ne by simp
    then have "distinct (map fst ((dict_items self @ butlast kvs) @ [last kvs]))"
      using fresh by simp
    then show ?thesis by (simp only: map_append distinct_append) 
  qed
  have "?n + length (butlast kvs) - ?C = ?n" using lb by simp
  then have before: "setitems self (butlast kvs) = Inr ?before"
    using setitems_fresh[OF ok fresh_b] by simp
  have "?n + length kvs - ?C = Suc ?n" using lk by simp
  then have "drop (?n + length kvs - ?C) (dict_items self @ kvs) = tl kvs"
    by (simp add: drop_Suc drop_tl)
  then have final: "setitems self kvs = Inr ?final"
    using setitems_fresh[OF ok fresh] by simp
  have full: "dict_len (dict_items ?before) = cache_size self"
    using lb C by (simp add: dict_len_def)
  have ok_b: "cache_ok ?before"
    using dist_kvs C lb by (simp add: cache_ok_def dict_len_def map_butlast distinct_butlast)
  have last_absent: "fst (last kvs) \<notin> fst ` set (dict_items ?before)"
  proof -
    have "distinct (map fst (butlast kvs @ [last kvs]))" using dist_kvs ne by simp
    then show ?thesis by auto
  qed
  have bl_pos: "1 \<le> length (butlast kvs)" using lb C by linarith
  have bl_ne: "butlast kvs \<noteq> []"
  proof
    assume "butlast kvs = []"
    then have "length (butlast kvs) = 0" by (simp only: list.size)
    with bl_pos show False by linarith
  qed
  have tl_eq: "tl kvs = tl (butlast kvs) @ [last kvs]"
  proof -
    have "tl kvs = tl (butlast kvs @ [last kvs])" using ne by simp
    then show ?thesis using bl_ne by simp
  qed
  have "Suc (length (butlast kvs)) - ?C = 1" using lb by simp
  then have "drop (Suc (length (dict_items ?before)) - nat (cache_size ?before))
      (dict_items ?before @ [(fst (last kvs), snd (last kvs))]) = tl kvs"
    using ne by (simp add: drop_Suc)
  then have step: "LRUCacheStrong_setitem ?before (fst (last kvs)) (snd (last kvs)) = Inr ?final"
    using setitem_absent_eq[OF ok_b last_absent, of "snd (last kvs)"] by simp
  have hd_absent: "\<not> dict_contains (dict_items ?final) (fst (hd kvs))"
  proof -
    have "distinct (map fst (hd kvs # tl kvs))" using dist_kvs ne by simp
    then show ?thesis by (auto simp: dict_contains_iff)
  qed
  have present: "\<forall>kv \<in> set (tl kvs). dict_getitem (dict_items ?final) (fst kv) = Inr (snd kv)"
  proof
    fix kv assume "kv \<in> set (tl kvs)"
    moreover have "distinct (map fst (tl kvs))" using dist_kvs by (simp add: map_tl distinct_tl)
    ultimately have "map_of (tl kvs) (fst kv) = Some (snd kv)" by simp
    then show "dict_getitem (dict_items ?final) (fst kv) = Inr (snd kv)"
      by (simp add: dict_getitem_def)
  qed
  show ?thesis
    using before final full step hd_absent present tl_eq by (intro exI[of _ ?before] exI[of _ ?final]) simp
qed

theorem lru_overflow_evicts_first_witness:
  "cache_ok \<lparr>dict_items = ([] :: (nat \<times> nat) list), cache_size = 2\<rparr> \<and>
   distinct (map fst (dict_items \<lparr>dict_items = ([] :: (nat \<times> nat) list), cache_size = 2\<rparr>
     @ [(1, 10), (2, 20), (3, 30)])) \<and>
   int (length [(1 :: nat, 10 :: nat), (2, 20), (3, 30)]) =
     cache_size \<lparr>dict_items = ([] :: (nat \<times> nat) list), cache_size = 2\<rparr> + 1 \<and>
   setitems \<lparr>dict_items = [], cache_size = 2\<rparr> [(1 :: nat, 10 :: nat), (2, 20), (3, 30)] =
     Inr \<lparr>dict_items = [(2, 20), (3, 30)], cache_size = 2\<rparr>"
proof -
  let ?c = "\<lparr>dict_items = ([] :: (nat \<times> nat) list), cache_size = 2\<rparr>"
  let ?kvs = "[(1 :: nat, 10 :: nat), (2, 20), (3, 30)]"
  have h1: "cache_ok ?c" by (simp add: cache_ok_def dict_len_def)
  have h2: "distinct (map fst (dict_items ?c @ ?kvs))" by simp
  have h3: "int (length ?kvs) = cache_size ?c + 1" by simp
  from lru_overflow_evicts_first[OF h1 h2 h3]
  obtain final where "setitems ?c ?kvs = Inr final" "cache_size final = 2"
    "dict_items final = tl ?kvs" by auto
  then have "setitems ?c ?kvs = Inr \<lparr>dict_items = [(2, 20), (3, 30)], cache_size = 2\<rparr>"
    by (cases final) simp
  with h1 h2 h3 show ?thesis by simp
qed

lemma isinstance_int_iff:
  "issubclass_cls (type_of s) int_cls = (py_int_value s \<noteq> None)"
  by (cases s) (simp_all add: int_cls_def bool_cls_def NoneType_cls_def str_cls_def
      list_cls_def tuple_cls_def type_cls_def object_cls_def)

text \<open>
  Claim C3. Constructing the cache with a capacity that is not an \<^verbatim>\<open>int\<close> raises the
  cache's own exception, and so does an \<^verbatim>\<open>int\<close> capacity that is zero or negative;
  an \<^verbatim>\<open>int\<close> capacity of at least one gives an empty cache of that capacity. As
  in Python, a boolean is an \<^verbatim>\<open>int\<close> (\<^verbatim>\<open>True\<close> is the capacity one).
\<close>

theorem lru_init_capacity:
  "(py_int_value s = None \<longrightarrow>
      isinstance s (PyType int_cls) = Inr False \<and>
      (LRUCacheStrong_init s :: pyerror + ('k, 'v) LRUCacheStrong) =
        Inl BeartypeUtilLRUCacheException) \<and>
   (\<forall>n. py_int_value s = Some n \<and> n \<le> 0 \<longrightarrow>
      (LRUCacheStrong_init s :: pyerror + ('k, 'v) LRUCacheStrong) =
        Inl BeartypeUtilLRUCacheException) \<and>
   (\<forall>n. py_int_value s = Some n \<and> 1 \<le> n \<longrightarrow>
      isinstance s (PyType int_cls) = Inr True \<and>
      (LRUCacheStrong_init s :: pyerror + ('k, 'v) LRUCacheStrong) =
        Inr \<lparr>dict_items = [], cache_size = n\<rparr>)"
  by (auto simp: LRUCacheStrong_init_def isinstance_int_iff)

theorem lru_init_capacity_witness:
  "py_int_value (PyStr ''3'') = None \<and>
   (LRUCacheStrong_init (PyStr ''3'') :: pyerror + (nat, nat) LRUCacheStrong) =
      Inl BeartypeUtilLRUCacheException \<and>
   py_int_value (PyInt 0) = Some 0 \<and>
   (LRUCacheStrong_init (PyInt 0) :: pyerror + (nat, nat) LRUCacheStrong) =
      Inl BeartypeUtilLRUCacheException \<and>
   py_int_value (PyInt 3) = Some 3 \<and>
   (LRUCacheStrong_init (PyInt 3) :: pyerror + (nat, nat) LRUCacheStrong) =
      Inr \<lparr>dict_items = [], cache_size = 3\<rparr>"
  using lru_init_capacity[of "PyStr ''3''", where ?'k = nat and ?'v = nat]
    lru_init_capacity[of "PyInt 0", where ?'k = nat and ?'v = nat]
    lru_init_capacity[of "PyInt 3", where ?'k = nat and ?'v = nat]
  by simp

text \<open>
  Claim C2, as amended. In a reachable cache state, reading a present key succeeds and
  moves its entry to the end of the iteration order (the most recently used position),
  and assigning to a present key does the same with the new value, evicting nothing.
  When the cache is full, holds at least two entries and the key is the least recently
  used one, a new key would evict it; after the read (or the assignment) the same new key
  evicts the next least recently used entry instead, and the key stays.
\<close>

theorem lru_access_refreshes_recency:
  assumes ok: "cache_ok self"
    and present: "dict_getitem (dict_items self) k = Inr v"
  shows
   "LRUCacheStrong_getitem self k =
      Inr (v, self\<lparr>dict_items := filter (\<lambda>kv. fst kv \<noteq> k) (dict_items self) @ [(k, v)]\<rparr>) \<and>
    LRUCacheStrong_setitem self k w =
      Inr (self\<lparr>dict_items := filter (\<lambda>kv. fst kv \<noteq> k) (dict_items self) @ [(k, w)]\<rparr>) \<and>
    (\<forall>k2 v2 rest k' v'.
       dict_items self = (k, v) # (k2, v2) # rest \<and>
       dict_len (dict_items self) = cache_size self \<and>
       \<not> dict_contains (dict_items self) k' \<longrightarrow>
       LRUCacheStrong_setitem self k' v' =
         Inr (self\<lparr>dict_items := (k2, v2) # rest @ [(k', v')]\<rparr>) \<and>
       LRUCacheStrong_setitem
         (self\<lparr>dict_items := filter (\<lambda>kv. fst kv \<noteq> k) (dict_items self) @ [(k, v)]\<rparr>) k' v' =
         Inr (self\<lparr>dict_items := rest @ [(k, v), (k', v')]\<rparr>) \<and>
       LRUCacheStrong_setitem
         (self\<lparr>dict_items := filter (\<lambda>kv. fst kv \<noteq> k) (dict_items self) @ [(k, w)]\<rparr>) k' v' =
         Inr (self\<lparr>dict_items := rest @ [(k, w), (k', v')]\<rparr>))"
proof -
  have d: "distinct (map fst (dict_items self))" using ok by (simp add: cache_ok_def)
  have m: "map_of (dict_items self) k = Some v"
    using present by (simp add: dict_getitem_def split: option.splits)
  then have kin: "k \<in> fst ` set (dict_items self)"
    by (metis domI dom_map_of_conv_image_fst)
  have get: "LRUCacheStrong_getitem self k =
      Inr (v, self\<lparr>dict_items := filter (\<lambda>kv. fst kv \<noteq> k) (dict_items self) @ [(k, v)]\<rparr>)"
    using getitem_eq[OF m] by (simp add: refreshed_def)
  have "\<not> cache_size self < int (length (refreshed (dict_items self) k w))"
    using ok length_refreshed_present[OF d kin, of w] by (simp add: cache_ok_def dict_len_def)
  then have put: "LRUCacheStrong_setitem self k w =
      Inr (self\<lparr>dict_items := filter (\<lambda>kv. fst kv \<noteq> k) (dict_items self) @ [(k, w)]\<rparr>)"
    using setitem_eq[OF d, of k w] by (simp add: refreshed_def)
  have cons: "LRUCacheStrong_setitem self k' v' =
         Inr (self\<lparr>dict_items := (k2, v2) # rest @ [(k', v')]\<rparr>) \<and>
       LRUCacheStrong_setitem
         (self\<lparr>dict_items := filter (\<lambda>kv. fst kv \<noteq> k) (dict_items self) @ [(k, u)]\<rparr>) k' v' =
         Inr (self\<lparr>dict_items := rest @ [(k, u), (k', v')]\<rparr>)"
    if items: "dict_items self = (k, v) # (k2, v2) # rest"
      and full: "dict_len (dict_items self) = cache_size self"
      and absent: "\<not> dict_contains (dict_items self) k'"
    for k2 v2 rest k' v' u
  proof -
    have ks: "k \<noteq> k2" "k \<notin> fst ` set rest" "k2 \<notin> fst ` set rest" "distinct (map fst rest)"
      "k' \<noteq> k" "k' \<noteq> k2" "k' \<notin> fst ` set rest"
      using d absent unfolding items dict_contains_iff by auto
    have sz: "cache_size self = int (length rest) + 2"
      using full by (simp add: items dict_len_def)
    have f1: "refreshed (dict_items self) k' v' = (k, v) # (k2, v2) # rest @ [(k', v')]"
      unfolding items refreshed_def using ks by (simp add: filter_absent)
    have a: "LRUCacheStrong_setitem self k' v' =
         Inr (self\<lparr>dict_items := (k2, v2) # rest @ [(k', v')]\<rparr>)"
      unfolding setitem_eq[OF d, of k' v'] f1 by (simp add: sz)
    let ?s1 = "self\<lparr>dict_items := filter (\<lambda>kv. fst kv \<noteq> k) (dict_items self) @ [(k, u)]\<rparr>"
    have i1: "dict_items ?s1 = (k2, v2) # rest @ [(k, u)]"
      using ks by (simp add: items filter_absent)
    have d1: "distinct (map fst (dict_items ?s1))"
      unfolding i1 using ks by auto
    have f2: "refreshed (dict_items ?s1) k' v' = (k2, v2) # rest @ [(k, u), (k', v')]"
      unfolding i1 refreshed_def using ks by (simp add: filter_absent)
    have b: "LRUCacheStrong_setitem ?s1 k' v' = Inr (self\<lparr>dict_items := rest @ [(k, u), (k', v')]\<rparr>)"
      unfolding setitem_eq[OF d1, of k' v'] f2 by (simp add: sz)
    show ?thesis using a b by simp
  qed
  show ?thesis using get put cons by blast
qed


theorem lru_access_refreshes_recency_witness:
  "cache_ok \<lparr>dict_items = [(1 :: nat, 10 :: nat), (2, 20)], cache_size = 2\<rparr> \<and>
   dict_getitem (dict_items \<lparr>dict_items = [(1 :: nat, 10 :: nat), (2, 20)], cache_size = 2\<rparr>) 1 =
     Inr 10 \<and>
   LRUCacheStrong_getitem \<lparr>dict_items = [(1 :: nat, 10 :: nat), (2, 20)], cache_size = 2\<rparr> 1 =
     Inr (10, \<lparr>dict_items = [(2, 20), (1, 10)], cache_size = 2\<rparr>) \<and>
   LRUCacheStrong_setitem \<lparr>dict_items = [(1 :: nat, 10 :: nat), (2, 20)], cache_size = 2\<rparr> 3 30 =
     Inr \<lparr>dict_items = [(2, 20), (3, 30)], cache_size = 2\<rparr> \<and>
   LRUCacheStrong_setitem \<lparr>dict_items = [(2 :: nat, 20 :: nat), (1, 10)], cache_size = 2\<rparr> 3 30 =
     Inr \<lparr>dict_items = [(1, 10), (3, 30)], cache_size = 2\<rparr>"
proof -
  let ?c = "\<lparr>dict_items = [(1 :: nat, 10 :: nat), (2, 20)], cache_size = 2\<rparr>"
  have h1: "cache_ok ?c" by (simp add: cache_ok_def dict_len_def)
  have h2: "dict_getitem (dict_items ?c) 1 = Inr 10" by (simp add: dict_getitem_def)
  have h3: "dict_items ?c = (1, 10) # (2, 20) # [] \<and>
      dict_len (dict_items ?c) = cache_size ?c \<and> \<not> dict_contains (dict_items ?c) 3"
    by (simp add: dict_len_def dict_contains_def)
  from lru_access_refreshes_recency[OF h1 h2, of 10] h3
  have "LRUCacheStrong_getitem ?c 1 =
      Inr (10, ?c\<lparr>dict_items := filter (\<lambda>kv. fst kv \<noteq> 1) (dict_items ?c) @ [(1, 10)]\<rparr>) \<and>
    LRUCacheStrong_setitem ?c 3 30 = Inr (?c\<lparr>dict_items := (2, 20) # [] @ [(3, 30)]\<rparr>) \<and>
    LRUCacheStrong_setitem
      (?c\<lparr>dict_items := filter (\<lambda>kv. fst kv \<noteq> 1) (dict_items ?c) @ [(1, 10)]\<rparr>) 3 30 =
      Inr (?c\<lparr>dict_items := [] @ [(1, 10), (3, 30)]\<rparr>)"
    by blast
  then show ?thesis using h1 h2 by simp
qed

text \<open>
  With a single entry there is no next least recently used key: in a cache of capacity
  one, reading key \<open>1\<close> and then setting the new key \<open>2\<close> evicts key \<open>1\<close> itself.
\<close>

theorem lru_single_entry_access_counterexample:
  "cache_ok \<lparr>dict_items = [(1 :: nat, 10 :: nat)], cache_size = 1\<rparr> \<and>
   LRUCacheStrong_getitem \<lparr>dict_items = [(1 :: nat, 10 :: nat)], cache_size = 1\<rparr> 1 =
     Inr (10, \<lparr>dict_items = [(1, 10)], cache_size = 1\<rparr>) \<and>
   LRUCacheStrong_setitem \<lparr>dict_items = [(1 :: nat, 10 :: nat)], cache_size = 1\<rparr> 2 20 =
     Inr \<lparr>dict_items = [(2, 20)], cache_size = 1\<rparr> \<and>
   \<not> dict_contains (dict_items \<lparr>dict_items = [(2 :: nat, 20 :: nat)], cache_size = 1\<rparr>) 1"
  by (simp add: cache_ok_def dict_len_def LRUCacheStrong_getitem_def LRUCacheStrong_setitem_def
      dict_getitem_def dict_delitem_def dict_contains_def dict_iter_next_def)

section \<open>Properties of the placeholders and of the class test\<close>

lemma is_prefix_iff: "is_prefix p s \<longleftrightarrow> (\<exists>v. s = p @ v)"
  by (induction p s rule: is_prefix.induct) auto


lemma isinstance_type_iff: "isinstance obj (PyType type_cls) = Inr (is_class obj)"
  by (cases obj) (simp_all add: int_cls_def bool_cls_def NoneType_cls_def str_cls_def
      list_cls_def tuple_cls_def type_cls_def object_cls_def)

lemma issubclass_not_class: "\<not> is_class obj \<Longrightarrow> issubclass obj b = Inl TypeError"
  by (cases obj) simp_all

lemma issubclass_any_classes:
  "list_all is_class bs \<Longrightarrow>
   issubclass_any (PyType c) bs =
     Inr (\<exists>b \<in> set (concat (map classes_of bs)). issubclass_cls c b)"
proof (induction bs)
  case Nil
  then show ?case by simp
next
  case (Cons b bs)
  then obtain b' where b: "b = PyType b'" by (cases b) simp_all
  show ?case using Cons by (cases "issubclass_cls c b'") (simp_all add: b)
qed

lemma issubclass_valid:
  "valid_base_classes base \<Longrightarrow>
   issubclass (PyType c) base = Inr (\<exists>b \<in> set (classes_of base). issubclass_cls c b)"
  by (cases base) (simp_all add: issubclass_any_classes)

text \<open>
  Claim C10. Let \<open>base_classes\<close> be a class or a non-empty tuple of classes that the
  function's assertion admits. For an object that is not a class the function returns
  \<^verbatim>\<open>False\<close> where the builtin \<^verbatim>\<open>issubclass\<close> raises \<^verbatim>\<open>TypeError\<close>; for a class
  it returns whether that class is a subclass of one of the given classes; so it returns
  \<^verbatim>\<open>True\<close> only for a class that is a subclass of one of them.
\<close>

theorem is_type_subclass_safe:
  assumes valid: "valid_base_classes base_classes"
    and asserted: "isinstance base_classes testable = Inr True"
  shows
   "(\<not> is_class obj \<longrightarrow>
       is_type_subclass testable obj base_classes = Inr False \<and>
       issubclass obj base_classes = Inl TypeError) \<and>
    (\<forall>c. obj = PyType c \<longrightarrow>
       is_type_subclass testable obj base_classes =
         Inr (\<exists>b \<in> set (classes_of base_classes). issubclass_cls c b)) \<and>
    (is_type_subclass testable obj base_classes = Inr True \<longrightarrow>
       (\<exists>c. obj = PyType c \<and> (\<exists>b \<in> set (classes_of base_classes). issubclass_cls c b)))"
proof -
  have a: "is_type_subclass testable obj base_classes = Inr False"
    "issubclass obj base_classes = Inl TypeError" if "\<not> is_class obj"
    using that asserted by (simp_all add: is_type_subclass_def isinstance_type_iff issubclass_not_class
        del: isinstance.simps)
  have b: "is_type_subclass testable (PyType c) base_classes =
         Inr (\<exists>b \<in> set (classes_of base_classes). issubclass_cls c b)" for c
    using asserted issubclass_valid[OF valid, of c]
    by (simp add: is_type_subclass_def isinstance_type_iff del: isinstance.simps)
  have c: "\<exists>c. obj = PyType c \<and> (\<exists>b \<in> set (classes_of base_classes). issubclass_cls c b)"
    if t: "is_type_subclass testable obj base_classes = Inr True"
  proof (cases "is_class obj")
    case True
    then obtain c where "obj = PyType c" by (cases obj) simp_all
    then show ?thesis using t b[of c] by simp
  next
    case False
    then show ?thesis using a(1) t by simp
  qed
  show ?thesis using a b c by blast
qed

lemma testable_admits_valid:
  "valid_base_classes b \<Longrightarrow> isinstance b (PyTuple [PyType type_cls, PyType tuple_cls]) = Inr True"
  by (cases b) (simp_all add: type_cls_def tuple_cls_def object_cls_def)

theorem is_type_subclass_safe_witness:
  "valid_base_classes (PyTuple [PyType str_cls, PyType int_cls]) \<and>
   isinstance (PyTuple [PyType str_cls, PyType int_cls])
     (PyTuple [PyType type_cls, PyType tuple_cls]) = Inr True \<and>
   is_type_subclass (PyTuple [PyType type_cls, PyType tuple_cls]) (PyInt 3)
     (PyTuple [PyType str_cls, PyType int_cls]) = Inr False \<and>
   issubclass (PyInt 3) (PyTuple [PyType str_cls, PyType int_cls]) = Inl TypeError \<and>
   is_type_subclass (PyTuple [PyType type_cls, PyType tuple_cls]) (PyType bool_cls)
     (PyTuple [PyType str_cls, PyType int_cls]) = Inr True"
proof -
  let ?b = "PyTuple [PyType str_cls, PyType int_cls]"
  let ?t = "PyTuple [PyType type_cls, PyType tuple_cls]"
  have h1: "valid_base_classes ?b" by simp
  have h2: "isinstance ?b ?t = Inr True" using h1 by (rule testable_admits_valid)
  have s: "\<exists>b \<in> set (classes_of ?b). issubclass_cls bool_cls b"
    by (simp add: bool_cls_def int_cls_def str_cls_def object_cls_def)
  have n: "\<not> is_class (PyInt 3)" by simp
  from is_type_subclass_safe[OF h1 h2, of "PyInt 3"] n
  have a: "is_type_subclass ?t (PyInt 3) ?b = Inr False \<and> issubclass (PyInt 3) ?b = Inl TypeError"
    by blast
  from is_type_subclass_safe[OF h1 h2, of "PyType bool_cls"] s
  have b: "is_type_subclass ?t (PyType bool_cls) ?b = Inr True" by simp
  show ?thesis using h1 h2 a b by blast
qed

section \<open>Properties of the generated checks\<close>

lemma py_items_truth: "py_items v = Some xs \<Longrightarrow> py_truth v \<longleftrightarrow> xs \<noteq> []"
  by (cases v) auto

lemma sequence_item_in_bounds:
  assumes "py_items v = Some xs" "xs \<noteq> []"
  shows "0 \<le> random_int mod int (length xs)" "random_int mod int (length xs) < int (length xs)"
    "PEP484585_CODE_HINT_SEQUENCE_ARGS_1_PITH_CHILD_EXPR v random_int =
       Inr (xs ! nat (random_int mod int (length xs)))"
proof -
  have pos: "0 < int (length xs)" using assms(2) by simp
  show a: "0 \<le> random_int mod int (length xs)" using pos by simp
  show b: "random_int mod int (length xs) < int (length xs)" using pos by simp
  show "PEP484585_CODE_HINT_SEQUENCE_ARGS_1_PITH_CHILD_EXPR v random_int =
       Inr (xs ! nat (random_int mod int (length xs)))"
  proof -
    have "py_index (int (length xs)) (random_int mod int (length xs)) =
        Some (random_int mod int (length xs))"
      unfolding py_index_def using a b by auto
    then show ?thesis
      using assms
      by (simp add: PEP484585_CODE_HINT_SEQUENCE_ARGS_1_PITH_CHILD_EXPR_def py_len_def py_mod_def
          py_getitem_def)
  qed
qed

text \<open>
  Claim C9. Let the pith be a sequence (a string, list or tuple). When it is empty, the
  item expression \<^verbatim>\<open>pith[random_int % len(pith)]\<close> would divide by zero, but the
  sequence snippet does not evaluate its child: its value is that of the
  \<^verbatim>\<open>isinstance\<close> test alone, whatever the child's code is. When it is not empty, the
  index \<^verbatim>\<open>random_int % len(pith)\<close> lies in \<open>0 \<le> i < len(pith)\<close> for every integer
  \<open>random_int\<close>, and the item expression yields the item at that index without raising.
\<close>

theorem sequence_item_access_guarded:
  assumes "py_items v = Some xs"
  shows
   "(xs = [] \<longrightarrow>
       PEP484585_CODE_HINT_SEQUENCE_ARGS_1_PITH_CHILD_EXPR v random_int = Inl ZeroDivisionError \<and>
       (\<forall>child. PEP484585_CODE_HINT_SEQUENCE_ARGS_1 (Inr v) origin child =
                  py_and (isinstance v origin) (Inr True))) \<and>
    (xs \<noteq> [] \<longrightarrow>
       0 \<le> random_int mod int (length xs) \<and>
       random_int mod int (length xs) < int (length xs) \<and>
       py_mod random_int (int (length xs)) = Inr (random_int mod int (length xs)) \<and>
       PEP484585_CODE_HINT_SEQUENCE_ARGS_1_PITH_CHILD_EXPR v random_int =
         Inr (xs ! nat (random_int mod int (length xs))) \<and>
       (\<forall>child. PEP484585_CODE_HINT_SEQUENCE_ARGS_1 (Inr v) origin child =
                  py_and (isinstance v origin) (child v)))"
proof -
  have e: "PEP484585_CODE_HINT_SEQUENCE_ARGS_1_PITH_CHILD_EXPR v random_int = Inl ZeroDivisionError"
    if "xs = []"
    using assms that
    by (simp add: PEP484585_CODE_HINT_SEQUENCE_ARGS_1_PITH_CHILD_EXPR_def py_len_def py_mod_def)
  have g: "PEP484585_CODE_HINT_SEQUENCE_ARGS_1 (Inr v) origin child =
      py_and (isinstance v origin) (if xs = [] then Inr True else child v)" for child
    using py_items_truth[OF assms]
    by (simp add: PEP484585_CODE_HINT_SEQUENCE_ARGS_1_def py_or_def)
  have m: "py_mod random_int (int (length xs)) = Inr (random_int mod int (length xs))"
    if "xs \<noteq> []"
    using that by (simp add: py_mod_def)
  show ?thesis
    using e g m sequence_item_in_bounds[OF assms] by simp
qed

theorem sequence_item_access_guarded_witness:
  "py_items (PyList []) = Some [] \<and>
   PEP484585_CODE_HINT_SEQUENCE_ARGS_1_PITH_CHILD_EXPR (PyList []) 7 = Inl ZeroDivisionError \<and>
   PEP484585_CODE_HINT_SEQUENCE_ARGS_1 (Inr (PyList [])) (PyType list_cls)
     (\<lambda>p. Inl ZeroDivisionError) = Inr True \<and>
   py_items (PyList [PyInt 1, PyInt 2, PyInt 3]) = Some [PyInt 1, PyInt 2, PyInt 3] \<and>
   PEP484585_CODE_HINT_SEQUENCE_ARGS_1_PITH_CHILD_EXPR (PyList [PyInt 1, PyInt 2, PyInt 3]) (- 1) =
     Inr (PyInt 3)"
proof -
  have h1: "py_items (PyList []) = Some []" by simp
  have h2: "py_items (PyList [PyInt 1, PyInt 2, PyInt 3]) = Some [PyInt 1, PyInt 2, PyInt 3]"
    by simp
  have i: "isinstance (PyList []) (PyType list_cls) = Inr True" by (simp add: list_cls_def)
  have a: "PEP484585_CODE_HINT_SEQUENCE_ARGS_1_PITH_CHILD_EXPR (PyList []) 7 = Inl ZeroDivisionError"
    "PEP484585_CODE_HINT_SEQUENCE_ARGS_1 (Inr (PyList [])) (PyType list_cls)
       (\<lambda>p. Inl ZeroDivisionError) = Inr True"
    using sequence_item_access_guarded[OF h1, of 7 "PyType list_cls"] i
    by (simp_all add: py_and_def del: isinstance.simps)
  have n: "nat (- 1 mod int (length [PyInt 1, PyInt 2, PyInt 3])) = 2" by simp
  have b: "PEP484585_CODE_HINT_SEQUENCE_ARGS_1_PITH_CHILD_EXPR (PyList [PyInt 1, PyInt 2, PyInt 3]) (- 1) =
     Inr (PyInt 3)"
    using sequence_item_access_guarded[OF h2, of "- 1" "PyType list_cls"] n
    by (simp del: isinstance.simps)
  show ?thesis using h1 h2 a b by simp
qed


lemma plain_classes_are_classes: "list_all is_class (plain_classes hs)"
  by (induction hs rule: plain_classes.induct) simp_all

lemma plain_classes_mem: "HintInstance A \<in> set hs \<Longrightarrow> PyType A \<in> set (plain_classes hs)"
  by (induction hs rule: plain_classes.induct) auto

lemma isinstance_any_classes:
  "list_all is_class cs \<Longrightarrow>
   isinstance_any v cs = Inr (\<exists>c. PyType c \<in> set cs \<and> issubclass_cls (type_of v) c)"
proof (induction cs)
  case Nil
  then show ?case by simp
next
  case (Cons c cs)
  then obtain c' where c: "c = PyType c'" by (cases c) simp_all
  show ?case using Cons by (cases "issubclass_cls (type_of v) c'") (auto simp: c)
qed

lemma union_check_unfold:
  "hs \<noteq> [] \<Longrightarrow>
   check (HintUnion hs) r v =
     py_disj
       ((if plain_classes hs = [] then [] else [isinstance v (PyTuple (plain_classes hs))]) @
        map (\<lambda>h. check h r v) (filter (\<lambda>h. \<not> is_plain h) hs))"
  by (simp add: check_def union_code_def PEP484_CODE_HINT_UNION_CHILD_NONPEP_def
      PEP484_CODE_HINT_UNION_CHILD_PEP_def comp_def del: isinstance.simps)

text \<open>
  Claim C4. For the union of the plain types \<open>A\<close> and \<open>B\<close> the generated check is the
  single test \<^verbatim>\<open>isinstance(v, (A, B))\<close>: it is true when \<open>v\<close> is an instance of \<open>A\<close> or
  of \<open>B\<close> and false otherwise, and never raises. In any union the plain-type children are
  tested first, in one \<^verbatim>\<open>isinstance\<close> against the tuple of all of them, and the other
  children after it in their order; the chain of \<^verbatim>\<open>or\<close> stops at the first true disjunct,
  so a value that is an instance of a plain-type child passes whatever the other children
  are and wherever they stand.
\<close>

theorem union_check_plain_types:
  "check (HintUnion [HintInstance A, HintInstance B]) r v =
     isinstance v (PyTuple [PyType A, PyType B]) \<and>
   check (HintUnion [HintInstance A, HintInstance B]) r v =
     py_or (isinstance v (PyType A)) (isinstance v (PyType B)) \<and>
   (check (HintUnion [HintInstance A, HintInstance B]) r v = Inr True \<longleftrightarrow>
      isinstance v (PyType A) = Inr True \<or> isinstance v (PyType B) = Inr True) \<and>
   (isinstance v (PyType A) = Inr False \<and> isinstance v (PyType B) = Inr False \<longrightarrow>
      check (HintUnion [HintInstance A, HintInstance B]) r v = Inr False) \<and>
   (\<forall>hs. hs \<noteq> [] \<longrightarrow>
      check (HintUnion hs) r v =
        py_disj
          ((if plain_classes hs = [] then [] else [isinstance v (PyTuple (plain_classes hs))]) @
           map (\<lambda>h. check h r v) (filter (\<lambda>h. \<not> is_plain h) hs))) \<and>
   (\<forall>hs C. HintInstance C \<in> set hs \<and> isinstance v (PyType C) = Inr True \<longrightarrow>
      check (HintUnion hs) r v = Inr True)"
proof -
  have two: "check (HintUnion [HintInstance A, HintInstance B]) r v =
      isinstance v (PyTuple [PyType A, PyType B])"
    by (simp add: union_check_unfold py_or_def split: sum.splits bool.splits)
  have val: "isinstance v (PyTuple [PyType A, PyType B]) =
      Inr (issubclass_cls (type_of v) A \<or> issubclass_cls (type_of v) B)"
    by (simp split: bool.splits)
  have first: "check (HintUnion hs) r v = Inr True"
    if "HintInstance C \<in> set hs" "isinstance v (PyType C) = Inr True" for hs C
  proof -
    have ne: "hs \<noteq> []" using that(1) by auto
    have mem: "PyType C \<in> set (plain_classes hs)" using that(1) by (rule plain_classes_mem)
    then have pne: "plain_classes hs \<noteq> []" by auto
    have "isinstance v (PyTuple (plain_classes hs)) = Inr True"
      using isinstance_any_classes[OF plain_classes_are_classes, of v hs] mem that(2) by auto
    then show ?thesis
      unfolding union_check_unfold[OF ne] using pne by (simp add: py_or_def del: isinstance.simps)
  qed
  have c2: "isinstance v (PyTuple [PyType A, PyType B]) =
      py_or (isinstance v (PyType A)) (isinstance v (PyType B))"
    by (simp add: py_or_def split: bool.splits)
  have c3: "isinstance v (PyTuple [PyType A, PyType B]) = Inr True \<longleftrightarrow>
      isinstance v (PyType A) = Inr True \<or> isinstance v (PyType B) = Inr True"
    unfolding val by simp
  have c4: "isinstance v (PyTuple [PyType A, PyType B]) = Inr False"
    if "isinstance v (PyType A) = Inr False \<and> isinstance v (PyType B) = Inr False"
    using that unfolding val by simp
  have c5: "\<forall>hs. hs \<noteq> [] \<longrightarrow>
      check (HintUnion hs) r v =
        py_disj
          ((if plain_classes hs = [] then [] else [isinstance v (PyTuple (plain_classes hs))]) @
           map (\<lambda>h. check h r v) (filter (\<lambda>h. \<not> is_plain h) hs))"
    using union_check_unfold by blast
  have c6: "\<forall>hs C. HintInstance C \<in> set hs \<and> isinstance v (PyType C) = Inr True \<longrightarrow>
      check (HintUnion hs) r v = Inr True"
    using first by blast
  show ?thesis
    unfolding two using c2 c3 c4 c5 c6 by (intro conjI impI) (rule refl, assumption+)
qed

theorem union_check_plain_types_witness:
  "check (HintUnion [HintInstance int_cls, HintInstance str_cls]) 0 (PyStr ''x'') = Inr True \<and>
   check (HintUnion [HintInstance int_cls, HintInstance str_cls]) 0 PyNone = Inr False \<and>
   check (HintUnion [HintSequence object_cls (HintInstance int_cls), HintInstance int_cls]) 0
     (PyInt 5) = Inr True"
proof -
  have s: "isinstance (PyStr ''x'') (PyType str_cls) = Inr True"
    by (simp add: str_cls_def)
  have n: "isinstance PyNone (PyType int_cls) = Inr False \<and>
      isinstance PyNone (PyType str_cls) = Inr False"
    by (simp add: int_cls_def str_cls_def NoneType_cls_def object_cls_def)
  have i: "HintInstance int_cls \<in>
      set [HintSequence object_cls (HintInstance int_cls), HintInstance int_cls] \<and>
      isinstance (PyInt 5) (PyType int_cls) = Inr True"
    by (simp add: int_cls_def)
  have a: "check (HintUnion [HintInstance int_cls, HintInstance str_cls]) 0 (PyStr ''x'') = Inr True"
    using union_check_plain_types[of int_cls str_cls 0 "PyStr ''x''"] s by blast
  have b: "check (HintUnion [HintInstance int_cls, HintInstance str_cls]) 0 PyNone = Inr False"
    using union_check_plain_types[of int_cls str_cls 0 PyNone] n by blast
  have c: "check (HintUnion [HintSequence object_cls (HintInstance int_cls), HintInstance int_cls]) 0
     (PyInt 5) = Inr True"
    using union_check_plain_types[of int_cls str_cls 0 "PyInt 5"] i by blast
  show ?thesis using a b c by blast
qed

lemma py_conj_True_iff: "py_conj cs = Inr True \<longleftrightarrow> (\<forall>c \<in> set cs. c = Inr True)"
  by (induction cs) (auto simp: py_and_def split: sum.splits bool.splits)

lemma isinstance_tuple_iff: "isinstance v (PyType tuple_cls) = Inr (\<exists>xs. v = PyTuple xs)"
  by (cases v) (simp_all add: int_cls_def bool_cls_def NoneType_cls_def str_cls_def
      list_cls_def tuple_cls_def type_cls_def object_cls_def)

lemma tuple_getitem: "i < length xs \<Longrightarrow> py_getitem (PyTuple xs) (int i) = Inr (xs ! i)"
  by (simp add: py_getitem_def py_index_def)

lemma tuple_children_True_iff:
  "(\<forall>c \<in> set (enumerate 0 cs). (case c of (i, child) \<Rightarrow> F i child) = Inr True) \<longleftrightarrow>
   (\<forall>i < length cs. F i (cs ! i) = Inr True)"
proof
  assume a: "\<forall>c \<in> set (enumerate 0 cs). (case c of (i, child) \<Rightarrow> F i child) = Inr True"
  show "\<forall>i < length cs. F i (cs ! i) = Inr True"
  proof (intro allI impI)
    fix i assume "i < length cs"
    then have "(i, cs ! i) \<in> set (enumerate 0 cs)" by (simp add: in_set_enumerate_eq)
    with a have "(case (i, cs ! i) of (i, child) \<Rightarrow> F i child) = Inr True" by blast
    then show "F i (cs ! i) = Inr True" by simp
  qed
next
  assume "\<forall>i < length cs. F i (cs ! i) = Inr True"
  then show "\<forall>c \<in> set (enumerate 0 cs). (case c of (i, child) \<Rightarrow> F i child) = Inr True"
    by (auto simp: in_set_enumerate_eq)
qed

lemma tuple_fixed_check_unfold:
  "check (HintTupleFixed hs) r v =
     py_conj
       (isinstance v (PyType tuple_cls) #
        (if hs = [] then [Inr (\<not> py_truth v)]
         else (case py_len v of Inl e \<Rightarrow> Inl e | Inr n \<Rightarrow> Inr (n = int (length hs))) #
           map (\<lambda>(i, h). pep_code_check_hint r h (py_getitem v (int i))) (enumerate 0 hs)))"
proof -
  have "map (\<lambda>(i, child). child (py_getitem v (int i)))
          (enumerate 0 (map (\<lambda>h. pep_code_check_hint r h) hs)) =
        map (\<lambda>(i, h). pep_code_check_hint r h (py_getitem v (int i))) (enumerate 0 hs)"
    by (simp add: enumerate_eq_zip zip_map2 case_prod_unfold)
  then show ?thesis
    by (simp add: check_def tuple_fixed_code_def PEP484585_CODE_HINT_TUPLE_FIXED_PREFIX_def
        PEP484585_CODE_HINT_TUPLE_FIXED_EMPTY_def PEP484585_CODE_HINT_TUPLE_FIXED_LEN_def
        PEP484585_CODE_HINT_TUPLE_FIXED_NONEMPTY_CHILD_def
        PEP484585_CODE_HINT_TUPLE_FIXED_NONEMPTY_PITH_CHILD_EXPR_def del: isinstance.simps)
qed

lemma tuple_fixed_check_iff:
  "check (HintTupleFixed hs) r v = Inr True \<longleftrightarrow>
     (\<exists>xs. v = PyTuple xs \<and> length xs = length hs \<and>
           (\<forall>i < length hs. check (hs ! i) r (xs ! i) = Inr True))"
proof (cases "\<exists>xs. v = PyTuple xs")
  case False
  then have "isinstance v (PyType tuple_cls) = Inr False"
    by (simp add: isinstance_tuple_iff del: isinstance.simps)
  then show ?thesis
    unfolding tuple_fixed_check_unfold py_conj_True_iff using False
    by (auto simp del: isinstance.simps)
next
  case True
  then obtain xs where v: "v = PyTuple xs" by blast
  have inst: "isinstance v (PyType tuple_cls) = Inr True" by (simp add: v tuple_cls_def)
  show ?thesis
  proof (cases "hs = []")
    case True
    then show ?thesis
      unfolding tuple_fixed_check_unfold py_conj_True_iff using inst
      by (auto simp: v simp del: isinstance.simps)
  next
    case False
    have len: "py_len v = Inr (int (length xs))" by (simp add: v py_len_def)
    have "check (HintTupleFixed hs) r v = Inr True \<longleftrightarrow>
        length xs = length hs \<and>
        (\<forall>i < length hs. pep_code_check_hint r (hs ! i) (py_getitem v (int i)) = Inr True)"
      unfolding tuple_fixed_check_unfold py_conj_True_iff using False inst
      by (simp add: len tuple_children_True_iff del: isinstance.simps)
    also have "\<dots> \<longleftrightarrow> length xs = length hs \<and>
        (\<forall>i < length hs. check (hs ! i) r (xs ! i) = Inr True)"
      by (auto simp: v tuple_getitem check_def)
    finally show ?thesis by (auto simp: v)
  qed
qed


lemma tuple_int_str_examples:
  "check (HintTupleFixed [HintInstance int_cls, HintInstance str_cls]) r
     (PyTuple [PyInt 1, PyStr ''x'']) = Inr True"
  "check (HintTupleFixed [HintInstance int_cls, HintInstance str_cls]) r
     (PyTuple [PyInt 1, PyInt 2]) = Inr False"
  "check (HintTupleFixed [HintInstance int_cls, HintInstance str_cls]) r
     (PyTuple [PyInt 1]) = Inr False"
  "check (HintTupleFixed [HintInstance int_cls, HintInstance str_cls]) r
     (PyTuple []) = Inr False"
  unfolding tuple_fixed_check_unfold
  by (simp_all add: py_and_def py_len_def py_getitem_def py_index_def PEP484_CODE_HINT_INSTANCE_def
      int_cls_def str_cls_def tuple_cls_def object_cls_def)

text \<open>
  Claim C6. The generated check of a fixed-length tuple hint with children \<open>hs\<close> is true
  exactly of the tuples of length \<open>length hs\<close> whose item at each index passes the check of
  the child at that index; for the empty-tuple form (no children) it is true exactly of
  the empty tuple. For the hint tuple-of (int, str), and every \<open>random_int\<close>:
  \<^verbatim>\<open>(1, "x")\<close> passes, and \<^verbatim>\<open>(1, 2)\<close>, \<^verbatim>\<open>(1,)\<close> and \<^verbatim>\<open>()\<close> fail (with
  \<^verbatim>\<open>False\<close>, not with an exception).
\<close>

theorem tuple_fixed_check_exact:
  "(check (HintTupleFixed hs) r v = Inr True \<longleftrightarrow>
      (\<exists>xs. v = PyTuple xs \<and> isinstance v (PyType tuple_cls) = Inr True \<and>
            py_len v = Inr (int (length hs)) \<and>
            (\<forall>i < length hs. check (hs ! i) r (xs ! i) = Inr True))) \<and>
   (check (HintTupleFixed []) r v = Inr True \<longleftrightarrow> v = PyTuple []) \<and>
   check (HintTupleFixed [HintInstance int_cls, HintInstance str_cls]) r
     (PyTuple [PyInt 1, PyStr ''x'']) = Inr True \<and>
   check (HintTupleFixed [HintInstance int_cls, HintInstance str_cls]) r
     (PyTuple [PyInt 1, PyInt 2]) = Inr False \<and>
   check (HintTupleFixed [HintInstance int_cls, HintInstance str_cls]) r
     (PyTuple [PyInt 1]) = Inr False \<and>
   check (HintTupleFixed [HintInstance int_cls, HintInstance str_cls]) r
     (PyTuple []) = Inr False"
proof -
  have a: "check (HintTupleFixed hs) r v = Inr True \<longleftrightarrow>
      (\<exists>xs. v = PyTuple xs \<and> isinstance v (PyType tuple_cls) = Inr True \<and>
            py_len v = Inr (int (length hs)) \<and>
            (\<forall>i < length hs. check (hs ! i) r (xs ! i) = Inr True))"
    unfolding tuple_fixed_check_iff
    by (auto simp: py_len_def tuple_cls_def)
  have b: "check (HintTupleFixed []) r v = Inr True \<longleftrightarrow> v = PyTuple []"
    unfolding tuple_fixed_check_iff by auto
  show ?thesis
    using a b tuple_int_str_examples[of r] by (intro conjI)
qed

theorem tuple_fixed_check_exact_witness:
  "check (HintTupleFixed [HintInstance bool_cls, HintInstance int_cls]) 0
     (PyTuple [PyBool True, PyBool False]) = Inr True \<and>
   check (HintTupleFixed [HintInstance bool_cls, HintInstance int_cls]) 0
     (PyList [PyBool True, PyBool False]) \<noteq> Inr True"
proof -
  let ?hs = "[HintInstance bool_cls, HintInstance int_cls]"
  let ?xs = "[PyBool True, PyBool False]"
  have i: "\<forall>i < length ?hs. check (?hs ! i) 0 (?xs ! i) = Inr True"
    by (simp add: check_def PEP484_CODE_HINT_INSTANCE_def bool_cls_def int_cls_def
        All_less_Suc2 numeral_2_eq_2)
  have t: "isinstance (PyTuple ?xs) (PyType tuple_cls) = Inr True \<and>
      py_len (PyTuple ?xs) = Inr (int (length ?hs))"
    by (simp add: tuple_cls_def py_len_def)
  have a: "check (HintTupleFixed ?hs) 0 (PyTuple ?xs) = Inr True"
    using tuple_fixed_check_exact[of ?hs 0 "PyTuple ?xs"] i t by blast
  have b: "check (HintTupleFixed ?hs) 0 (PyList ?xs) \<noteq> Inr True"
    using tuple_fixed_check_exact[of ?hs 0 "PyList ?xs"] by blast
  show ?thesis using a b by blast
qed








section \<open>Properties of the placeholders in a text\<close>





lemma placeholder_ends:
  "PEP_CODE_PITH_ROOT_PARAM_NAME_PLACEHOLDER \<noteq> []"
  "hd PEP_CODE_PITH_ROOT_PARAM_NAME_PLACEHOLDER = CHR ''?''"
  "last PEP_CODE_PITH_ROOT_PARAM_NAME_PLACEHOLDER = CHR ''^''"
  by (simp_all add: PEP_CODE_PITH_ROOT_PARAM_NAME_PLACEHOLDER_def)


text \<open>Prefixes of a concatenation.\<close>

lemma is_prefix_appendI: "is_prefix p s \<Longrightarrow> is_prefix p (s @ t)"
  by (auto simp: is_prefix_iff)

lemma is_prefix_append_short:
  "is_prefix p (s @ t) \<Longrightarrow> length p \<le> length s \<Longrightarrow> is_prefix p s"
  by (auto simp: is_prefix_iff append_eq_append_conv2)

lemma is_prefix_append_long:
  assumes "is_prefix p (s @ t)" "length s < length p"
  shows "\<exists>x. x \<noteq> [] \<and> p = s @ x \<and> is_prefix x t"
proof -
  obtain v where v: "s @ t = p @ v" using assms(1) by (auto simp: is_prefix_iff)
  then obtain us where "(s @ us = p \<and> t = us @ v) \<or> (s = p @ us \<and> us @ t = v)"
    by (auto simp: append_eq_append_conv2)
  then have "s @ us = p \<and> t = us @ v" using assms(2) by auto
  moreover then have "us \<noteq> []" using assms(2) by auto
  ultimately show ?thesis by (auto simp: is_prefix_iff)
qed

lemma is_prefix_hd: "is_prefix p s \<Longrightarrow> p \<noteq> [] \<Longrightarrow> s \<noteq> [] \<and> hd s = hd p"
  by (cases p; cases s) auto

text \<open>A stretch of text in which no occurrence of \<open>old\<close> starts is copied by the scan.\<close>

lemma replace_scan_copy:
  "old \<noteq> [] \<Longrightarrow> (\<forall>j < length d. \<not> is_prefix old (drop j d @ w)) \<Longrightarrow>
   replace_scan old new (d @ w) = d @ replace_scan old new w"
proof (induction d)
  case Nil
  then show ?case by simp
next
  case (Cons c d)
  have "\<not> is_prefix old (c # d @ w)" using Cons.prems(2) by force
  moreover have "\<forall>j < length d. \<not> is_prefix old (drop j d @ w)"
  proof (intro allI impI)
    fix j assume "j < length d"
    then have "Suc j < length (c # d)" by simp
    then have "\<not> is_prefix old (drop (Suc j) (c # d) @ w)" using Cons.prems(2) by blast
    then show "\<not> is_prefix old (drop j d @ w)" by simp
  qed
  ultimately show ?case using Cons.IH[OF Cons.prems(1)] by simp
qed

text \<open>
  A segment \<open>d\<close> of a text survives the replacement of \<open>old\<close>, and the text before and
  after it are replaced independently, when no occurrence of \<open>old\<close> starts inside the
  segment and none that starts before it reaches into it.
\<close>

lemma replace_scan_segment:
  assumes "old \<noteq> []"
    and "\<forall>j < length d. \<not> is_prefix old (drop j d @ w)"
    and "\<forall>i < length u. is_prefix old (drop i u @ d @ w) \<longrightarrow> length old \<le> length u - i"
  shows "replace_scan old new (u @ d @ w) = replace_scan old new u @ d @ replace_scan old new w"
  using assms
proof (induction old new u rule: replace_scan.induct)
  case (1 old new)
  then show ?case using replace_scan_copy by simp
next
  case (2 old new c cs)
  note ne = "2.prems"(1) and inside = "2.prems"(2) and cross = "2.prems"(3)
  have cross0: "is_prefix old (c # cs @ d @ w) \<longrightarrow> length old \<le> Suc (length cs)"
    using cross by force
  show ?case
  proof (cases "old \<noteq> [] \<and> is_prefix old (c # cs)")
    case True
    let ?k = "length old - 1"
    have klen: "?k \<le> length cs"
    proof -
      obtain v where "c # cs = old @ v" using True by (auto simp: is_prefix_iff)
      then have "length old \<le> Suc (length cs)" by (metis length_append le_add1 length_Cons)
      then show ?thesis by simp
    qed
    have whole: "is_prefix old (c # cs @ d @ w)"
      using is_prefix_appendI[of old "c # cs" "d @ w"] True by simp
    have dr: "drop ?k (cs @ d @ w) = drop ?k cs @ d @ w" using klen by simp
    have cross': "\<forall>i < length (drop ?k cs).
        is_prefix old (drop i (drop ?k cs) @ d @ w) \<longrightarrow> length old \<le> length (drop ?k cs) - i"
    proof (intro allI impI)
      fix i assume i: "i < length (drop ?k cs)" and p: "is_prefix old (drop i (drop ?k cs) @ d @ w)"
      have "Suc (i + ?k) < length (c # cs)" using i by simp
      moreover have "drop (Suc (i + ?k)) (c # cs) = drop i (drop ?k cs)" by simp
      ultimately have "length old \<le> length (c # cs) - Suc (i + ?k)"
        using cross p by (metis)
      then show "length old \<le> length (drop ?k cs) - i" by simp
    qed
    have "replace_scan old new (drop ?k cs @ d @ w) =
        replace_scan old new (drop ?k cs) @ d @ replace_scan old new w"
      using "2.IH"(1)[OF True ne inside cross'] .
    then show ?thesis using True whole dr by auto
  next
    case False
    have nowhole: "\<not> is_prefix old (c # cs @ d @ w)"
    proof
      assume w: "is_prefix old (c # cs @ d @ w)"
      then have "length old \<le> length (c # cs)" using cross0 by simp
      then have "is_prefix old (c # cs)"
        using is_prefix_append_short[of old "c # cs" "d @ w"] w by simp
      then show False using False ne by simp
    qed
    have cross': "\<forall>i < length cs.
        is_prefix old (drop i cs @ d @ w) \<longrightarrow> length old \<le> length cs - i"
    proof (intro allI impI)
      fix i assume i: "i < length cs" and p: "is_prefix old (drop i cs @ d @ w)"
      have "Suc i < length (c # cs)" using i by simp
      moreover have "drop (Suc i) (c # cs) = drop i cs" by simp
      ultimately have "length old \<le> length (c # cs) - Suc i" using cross p by metis
      then show "length old \<le> length cs - i" by simp
    qed
    have "replace_scan old new (cs @ d @ w) =
        replace_scan old new cs @ d @ replace_scan old new w"
      using "2.IH"(2)[OF False ne inside cross'] .
    then show ?thesis using False nowhole ne by auto
  qed
qed


lemma no_start_inside:
  assumes "old \<noteq> []" "hd old \<notin> set d"
  shows "\<forall>j < length d. \<not> is_prefix old (drop j d @ w)"
proof (intro allI impI notI)
  fix j assume j: "j < length d" and p: "is_prefix old (drop j d @ w)"
  have ne: "drop j d \<noteq> []" using j by simp
  then have "hd (drop j d @ w) \<in> set d"
    by (metis hd_append2 hd_in_set in_set_dropD)
  moreover have "hd (drop j d @ w) = hd old" using is_prefix_hd[OF p assms(1)] by simp
  ultimately show False using assms(2) by simp
qed

lemma no_start_inside_but_last:
  assumes "old \<noteq> []" "hd old \<notin> set d0" "\<not> is_prefix old (c # w)"
  shows "\<forall>j < length (d0 @ [c]). \<not> is_prefix old (drop j (d0 @ [c]) @ w)"
proof (intro allI impI notI)
  fix j assume j: "j < length (d0 @ [c])" and p: "is_prefix old (drop j (d0 @ [c]) @ w)"
  show False
  proof (cases "j < length d0")
    case True
    then have "is_prefix old (drop j d0 @ (c # w))" using p by simp
    then show False using no_start_inside[OF assms(1,2), of "c # w"] True by blast
  next
    case False
    then have "j = length d0" using j by simp
    then show False using p assms(3) by simp
  qed
qed

lemma no_reach_into:
  assumes "d \<noteq> []" "hd d \<notin> set old"
  shows "\<forall>i < length u. is_prefix old (drop i u @ d @ w) \<longrightarrow> length old \<le> length u - i"
proof (intro allI impI)
  fix i assume i: "i < length u" and p: "is_prefix old (drop i u @ d @ w)"
  show "length old \<le> length u - i"
  proof (rule ccontr)
    assume "\<not> length old \<le> length u - i"
    then have "length (drop i u) < length old" by simp
    from is_prefix_append_long[OF p this]
    obtain x where x: "x \<noteq> []" "old = drop i u @ x" "is_prefix x (d @ w)" by blast
    have "hd x = hd d" using is_prefix_hd[OF x(3) x(1)] assms(1) by simp
    moreover have "hd x \<in> set x" using x(1) by simp
    ultimately have "hd d \<in> set old" using x(2) by simp
    then show False using assms(2) by simp
  qed
qed

lemma no_reach_into_but_last:
  assumes "d \<noteq> []" "hd d \<notin> set o0" "\<not> is_suffix o0 u"
  shows "\<forall>i < length u. is_prefix (o0 @ [c]) (drop i u @ d @ w) \<longrightarrow>
           length (o0 @ [c]) \<le> length u - i"
proof (intro allI impI)
  fix i assume i: "i < length u" and p: "is_prefix (o0 @ [c]) (drop i u @ d @ w)"
  show "length (o0 @ [c]) \<le> length u - i"
  proof (rule ccontr)
    assume "\<not> length (o0 @ [c]) \<le> length u - i"
    then have "length (drop i u) < length (o0 @ [c])" by simp
    from is_prefix_append_long[OF p this]
    obtain x where x: "x \<noteq> []" "o0 @ [c] = drop i u @ x" "is_prefix x (d @ w)" by blast
    have hx: "hd x = hd d" using is_prefix_hd[OF x(3) x(1)] assms(1) by simp
    have "o0 @ [c] = (drop i u @ butlast x) @ [last x]" using x(1,2) by simp
    then have o0: "o0 = drop i u @ butlast x" by (simp only: append1_eq_conv)
    show False
    proof (cases "butlast x = []")
      case True
      then have "u = take i u @ o0" using o0 by simp
      then have "rev u = rev o0 @ rev (take i u)" by (metis rev_append)
      then have "is_suffix o0 u" unfolding is_suffix_def is_prefix_iff by blast
      then show False using assms(3) by simp
    next
      case False
      then have "hd x = hd (butlast x)" by (cases x) auto
      then have "hd d \<in> set o0" using hx False o0 by (metis UnCI hd_in_set set_append)
      then show False using assms(2) by simp
    qed
  qed
qed

lemma str_replace_segment:
  assumes "old \<noteq> []"
    and "\<forall>j < length d. \<not> is_prefix old (drop j d @ w)"
    and "\<forall>i < length u. is_prefix old (drop i u @ d @ w) \<longrightarrow> length old \<le> length u - i"
  shows "str_replace (u @ d @ w) old new = str_replace u old new @ d @ str_replace w old new"
  using replace_scan_segment[OF assms] assms(1) by (simp add: str_replace_def)

lemma identifier_char_not_delimiter:
  assumes "list_all is_identifier_char b"
  shows "CHR ''@'' \<notin> set b" "CHR ''$'' \<notin> set b" "CHR ''?'' \<notin> set b"
proof -
  have all: "\<forall>c \<in> set b. is_identifier_char c" using assms by (simp add: list_all_iff)
  have "\<not> is_identifier_char CHR ''@''" "\<not> is_identifier_char CHR ''$''"
    "\<not> is_identifier_char CHR ''?''"
    by (simp_all add: is_identifier_char_def)
  then show "CHR ''@'' \<notin> set b" "CHR ''$'' \<notin> set b" "CHR ''?'' \<notin> set b"
    using all by blast+
qed


lemma placeholder_chars:
  assumes "list_all is_identifier_char b"
  shows "child_placeholder b \<noteq> []" "hd (child_placeholder b) = CHR ''@''"
    "CHR ''$'' \<notin> set (child_placeholder b)" "CHR ''?'' \<notin> set (child_placeholder b)"
    "forwardref_placeholder b \<noteq> []" "hd (forwardref_placeholder b) = CHR ''$''"
    "CHR ''@'' \<notin> set (forwardref_placeholder b)"
    "forwardref_placeholder b = butlast (forwardref_placeholder b) @ [CHR ''?'']"
    "CHR ''?'' \<notin> set (butlast (forwardref_placeholder b))"
  using identifier_char_not_delimiter[OF assms]
  by (simp_all add: child_placeholder_def forwardref_placeholder_def butlast_append
      PEP_CODE_HINT_CHILD_PLACEHOLDER_PREFIX_def PEP_CODE_HINT_CHILD_PLACEHOLDER_SUFFIX_def
      PEP_CODE_HINT_FORWARDREF_UNQUALIFIED_PLACEHOLDER_PREFIX_def
      PEP_CODE_HINT_FORWARDREF_UNQUALIFIED_PLACEHOLDER_SUFFIX_def)

lemma root_placeholder_chars:
  "CHR ''@'' \<notin> set PEP_CODE_PITH_ROOT_PARAM_NAME_PLACEHOLDER"
  "CHR ''$'' \<notin> set PEP_CODE_PITH_ROOT_PARAM_NAME_PLACEHOLDER"
  "PEP_CODE_PITH_ROOT_PARAM_NAME_PLACEHOLDER =
     CHR ''?'' # tl PEP_CODE_PITH_ROOT_PARAM_NAME_PLACEHOLDER"
  by (simp_all add: PEP_CODE_PITH_ROOT_PARAM_NAME_PLACEHOLDER_def)

text \<open>
  Claim C7, as amended. The five delimiter strings of the three placeholder families
  (child slot, forward reference, root name) are pairwise distinct, and no delimiter of
  one family occurs in, or contains, a delimiter of another family. In any text, replacing
  every occurrence of a child-slot placeholder leaves each forward-reference and root-name
  placeholder of the text as it is, and replacing a forward-reference or the root-name
  placeholder leaves each child-slot placeholder as it is: the replacement does not match
  inside or across it, and acts on the text before and after it separately. Between the
  forward-reference and the root-name family the same holds where the two placeholders do
  not overlap, that is, unless the final \<^verbatim>\<open>?\<close> of the forward-reference placeholder is
  at once the first character of a root-name placeholder. The bodies of the placeholders
  are made of identifier characters.
\<close>

theorem placeholder_delimiters_collision_free:
  assumes "list_all is_identifier_char cb" and "list_all is_identifier_char fb"
  shows
   "distinct (child_delimiters @ forwardref_delimiters @ root_name_delimiters) \<and>
    \<not> families_collide child_delimiters forwardref_delimiters \<and>
    \<not> families_collide child_delimiters root_name_delimiters \<and>
    \<not> families_collide forwardref_delimiters root_name_delimiters \<and>
    str_replace (u @ forwardref_placeholder fb @ w) (child_placeholder cb) new =
      str_replace u (child_placeholder cb) new @ forwardref_placeholder fb @
      str_replace w (child_placeholder cb) new \<and>
    str_replace (u @ PEP_CODE_PITH_ROOT_PARAM_NAME_PLACEHOLDER @ w) (child_placeholder cb) new =
      str_replace u (child_placeholder cb) new @ PEP_CODE_PITH_ROOT_PARAM_NAME_PLACEHOLDER @
      str_replace w (child_placeholder cb) new \<and>
    str_replace (u @ child_placeholder cb @ w) (forwardref_placeholder fb) new =
      str_replace u (forwardref_placeholder fb) new @ child_placeholder cb @
      str_replace w (forwardref_placeholder fb) new \<and>
    str_replace (u @ child_placeholder cb @ w) PEP_CODE_PITH_ROOT_PARAM_NAME_PLACEHOLDER new =
      str_replace u PEP_CODE_PITH_ROOT_PARAM_NAME_PLACEHOLDER new @ child_placeholder cb @
      str_replace w PEP_CODE_PITH_ROOT_PARAM_NAME_PLACEHOLDER new \<and>
    (\<not> is_prefix (tl PEP_CODE_PITH_ROOT_PARAM_NAME_PLACEHOLDER) w \<longrightarrow>
       str_replace (u @ forwardref_placeholder fb @ w) PEP_CODE_PITH_ROOT_PARAM_NAME_PLACEHOLDER new =
         str_replace u PEP_CODE_PITH_ROOT_PARAM_NAME_PLACEHOLDER new @ forwardref_placeholder fb @
         str_replace w PEP_CODE_PITH_ROOT_PARAM_NAME_PLACEHOLDER new) \<and>
    (\<not> is_suffix (butlast (forwardref_placeholder fb)) u \<longrightarrow>
       str_replace (u @ PEP_CODE_PITH_ROOT_PARAM_NAME_PLACEHOLDER @ w) (forwardref_placeholder fb) new =
         str_replace u (forwardref_placeholder fb) new @ PEP_CODE_PITH_ROOT_PARAM_NAME_PLACEHOLDER @
         str_replace w (forwardref_placeholder fb) new)"
proof -
  let ?P = "PEP_CODE_PITH_ROOT_PARAM_NAME_PLACEHOLDER"
  let ?c = "child_placeholder cb"
  let ?f = "forwardref_placeholder fb"
  note c = placeholder_chars(1-4)[OF assms(1)]
  note f = placeholder_chars(5-9)[OF assms(2)]
  note P = placeholder_ends root_placeholder_chars
  have delims: "distinct (child_delimiters @ forwardref_delimiters @ root_name_delimiters) \<and>
    \<not> families_collide child_delimiters forwardref_delimiters \<and>
    \<not> families_collide child_delimiters root_name_delimiters \<and>
    \<not> families_collide forwardref_delimiters root_name_delimiters"
    by (simp add: families_collide_def child_delimiters_def forwardref_delimiters_def
        root_name_delimiters_def PEP_CODE_PITH_ROOT_PARAM_NAME_PLACEHOLDER_def
        PEP_CODE_HINT_CHILD_PLACEHOLDER_PREFIX_def PEP_CODE_HINT_CHILD_PLACEHOLDER_SUFFIX_def
        PEP_CODE_HINT_FORWARDREF_UNQUALIFIED_PLACEHOLDER_PREFIX_def
        PEP_CODE_HINT_FORWARDREF_UNQUALIFIED_PLACEHOLDER_SUFFIX_def)
  have cf: "str_replace (u @ ?f @ w) ?c new = str_replace u ?c new @ ?f @ str_replace w ?c new"
  proof (rule str_replace_segment[OF c(1)])
    show "\<forall>j < length ?f. \<not> is_prefix ?c (drop j ?f @ w)"
      using no_start_inside[OF c(1), of ?f w] c(2) f(3) by simp
    show "\<forall>i < length u. is_prefix ?c (drop i u @ ?f @ w) \<longrightarrow> length ?c \<le> length u - i"
      using no_reach_into[OF f(1), of ?c u w] f(2) c(3) by simp
  qed
  have cp: "str_replace (u @ ?P @ w) ?c new = str_replace u ?c new @ ?P @ str_replace w ?c new"
  proof (rule str_replace_segment[OF c(1)])
    show "\<forall>j < length ?P. \<not> is_prefix ?c (drop j ?P @ w)"
      using no_start_inside[OF c(1), of ?P w] c(2) P(4) by simp
    show "\<forall>i < length u. is_prefix ?c (drop i u @ ?P @ w) \<longrightarrow> length ?c \<le> length u - i"
      using no_reach_into[OF P(1), of ?c u w] P(2) c(4) by simp
  qed
  have fc: "str_replace (u @ ?c @ w) ?f new = str_replace u ?f new @ ?c @ str_replace w ?f new"
  proof (rule str_replace_segment[OF f(1)])
    show "\<forall>j < length ?c. \<not> is_prefix ?f (drop j ?c @ w)"
      using no_start_inside[OF f(1), of ?c w] f(2) c(3) by simp
    show "\<forall>i < length u. is_prefix ?f (drop i u @ ?c @ w) \<longrightarrow> length ?f \<le> length u - i"
      using no_reach_into[OF c(1), of ?f u w] c(2) f(3) by simp
  qed
  have pc: "str_replace (u @ ?c @ w) ?P new = str_replace u ?P new @ ?c @ str_replace w ?P new"
  proof (rule str_replace_segment[OF P(1)])
    show "\<forall>j < length ?c. \<not> is_prefix ?P (drop j ?c @ w)"
      using no_start_inside[OF P(1), of ?c w] P(2) c(4) by simp
    show "\<forall>i < length u. is_prefix ?P (drop i u @ ?c @ w) \<longrightarrow> length ?P \<le> length u - i"
      using no_reach_into[OF c(1), of ?P u w] c(2) P(4) by simp
  qed
  have pf: "str_replace (u @ ?f @ w) ?P new = str_replace u ?P new @ ?f @ str_replace w ?P new"
    if "\<not> is_prefix (tl ?P) w"
  proof (rule str_replace_segment[OF P(1)])
    have "\<not> is_prefix ?P (CHR ''?'' # w)"
      using that by (subst P(6)) simp
    then have "\<forall>j < length (butlast ?f @ [CHR ''?'']).
        \<not> is_prefix ?P (drop j (butlast ?f @ [CHR ''?'']) @ w)"
      using no_start_inside_but_last[OF P(1), of "butlast ?f" "CHR ''?''" w] P(2) f(5) by simp
    then show "\<forall>j < length ?f. \<not> is_prefix ?P (drop j ?f @ w)"
      using f(4) by simp
    show "\<forall>i < length u. is_prefix ?P (drop i u @ ?f @ w) \<longrightarrow> length ?P \<le> length u - i"
      using no_reach_into[OF f(1), of ?P u w] f(2) P(5) by simp
  qed
  have fp: "str_replace (u @ ?P @ w) ?f new = str_replace u ?f new @ ?P @ str_replace w ?f new"
    if "\<not> is_suffix (butlast ?f) u"
  proof (rule str_replace_segment[OF f(1)])
    show "\<forall>j < length ?P. \<not> is_prefix ?f (drop j ?P @ w)"
      using no_start_inside[OF f(1), of ?P w] f(2) P(5) by simp
    have "\<forall>i < length u. is_prefix (butlast ?f @ [CHR ''?'']) (drop i u @ ?P @ w) \<longrightarrow>
        length (butlast ?f @ [CHR ''?'']) \<le> length u - i"
      using no_reach_into_but_last[OF P(1) _ that, of "CHR ''?''" w] P(2) f(5) by simp
    then show "\<forall>i < length u. is_prefix ?f (drop i u @ ?P @ w) \<longrightarrow> length ?f \<le> length u - i"
      using f(4) by simp
  qed
  show ?thesis using delims cf cp fc pc pf fp by blast
qed


theorem placeholder_delimiters_collision_free_witness:
  "list_all is_identifier_char ''0'' \<and> list_all is_identifier_char ''Foo'' \<and>
   str_replace (''a@[0)!b'' @ forwardref_placeholder ''Foo'' @ ''c@[0)!'') (child_placeholder ''0'')
     ''X'' = ''aXb${FORWARDREF:Foo]?cX'' \<and>
   \<not> is_prefix (tl PEP_CODE_PITH_ROOT_PARAM_NAME_PLACEHOLDER) '' or ?|PITH_ROOT_NAME`^'' \<and>
   str_replace (''('' @ forwardref_placeholder ''Foo'' @ '' or ?|PITH_ROOT_NAME`^'')
     PEP_CODE_PITH_ROOT_PARAM_NAME_PLACEHOLDER ''x'' = ''(${FORWARDREF:Foo]? or x''"
proof -
  have h1: "list_all is_identifier_char ''0''" and h2: "list_all is_identifier_char ''Foo''"
    by (simp_all add: is_identifier_char_def)
  have h3: "\<not> is_prefix (tl PEP_CODE_PITH_ROOT_PARAM_NAME_PLACEHOLDER) '' or ?|PITH_ROOT_NAME`^''"
    by (simp add: PEP_CODE_PITH_ROOT_PARAM_NAME_PLACEHOLDER_def)
  have a: "str_replace ''a@[0)!b'' (child_placeholder ''0'') ''X'' = ''aXb''"
    "str_replace ''c@[0)!'' (child_placeholder ''0'') ''X'' = ''cX''"
    by (simp_all add: str_replace_def child_placeholder_def
        PEP_CODE_HINT_CHILD_PLACEHOLDER_PREFIX_def PEP_CODE_HINT_CHILD_PLACEHOLDER_SUFFIX_def)
  have b: "str_replace ''('' PEP_CODE_PITH_ROOT_PARAM_NAME_PLACEHOLDER ''x'' = ''(''"
    "str_replace '' or ?|PITH_ROOT_NAME`^'' PEP_CODE_PITH_ROOT_PARAM_NAME_PLACEHOLDER ''x'' = '' or x''"
    by (simp_all add: str_replace_def PEP_CODE_PITH_ROOT_PARAM_NAME_PLACEHOLDER_def)
  have f: "forwardref_placeholder ''Foo'' = ''${FORWARDREF:Foo]?''"
    by (simp add: forwardref_placeholder_def
        PEP_CODE_HINT_FORWARDREF_UNQUALIFIED_PLACEHOLDER_PREFIX_def
        PEP_CODE_HINT_FORWARDREF_UNQUALIFIED_PLACEHOLDER_SUFFIX_def)
  have c: "str_replace (''a@[0)!b'' @ forwardref_placeholder ''Foo'' @ ''c@[0)!'')
      (child_placeholder ''0'') ''X'' = ''aXb${FORWARDREF:Foo]?cX''"
    using placeholder_delimiters_collision_free[OF h1 h2, of "''a@[0)!b''" "''c@[0)!''" "''X''"]
    by (simp add: a f)
  have d: "str_replace (''('' @ forwardref_placeholder ''Foo'' @ '' or ?|PITH_ROOT_NAME`^'')
      PEP_CODE_PITH_ROOT_PARAM_NAME_PLACEHOLDER ''x'' = ''(${FORWARDREF:Foo]? or x''"
    using placeholder_delimiters_collision_free[OF h1 h2, of "''(''" "'' or ?|PITH_ROOT_NAME`^''" "''x''"]
      h3
    by (simp add: b f)
  show ?thesis using h1 h2 h3 c d by blast
qed

text \<open>
  Where a forward-reference placeholder is directly followed by the rest of the root-name
  placeholder, the two overlap in the \<^verbatim>\<open>?\<close>: replacing the root-name placeholder
  removes the suffix of the forward-reference placeholder, and replacing the
  forward-reference placeholder removes the first character of the root-name placeholder.
\<close>

theorem placeholder_overlap_counterexample:
  "is_substring (forwardref_placeholder ''Foo'') ''${FORWARDREF:Foo]?|PITH_ROOT_NAME`^'' \<and>
   is_substring PEP_CODE_PITH_ROOT_PARAM_NAME_PLACEHOLDER ''${FORWARDREF:Foo]?|PITH_ROOT_NAME`^'' \<and>
   str_replace ''${FORWARDREF:Foo]?|PITH_ROOT_NAME`^'' PEP_CODE_PITH_ROOT_PARAM_NAME_PLACEHOLDER ''x'' =
     ''${FORWARDREF:Foo]x'' \<and>
   \<not> is_substring (forwardref_placeholder ''Foo'') ''${FORWARDREF:Foo]x'' \<and>
   str_replace ''${FORWARDREF:Foo]?|PITH_ROOT_NAME`^'' (forwardref_placeholder ''Foo'') ''Foo'' =
     ''Foo|PITH_ROOT_NAME`^'' \<and>
   \<not> is_substring PEP_CODE_PITH_ROOT_PARAM_NAME_PLACEHOLDER ''Foo|PITH_ROOT_NAME`^'' \<and>
   str_replace '']?|PITH_ROOT_NAME`^'' PEP_CODE_PITH_ROOT_PARAM_NAME_PLACEHOLDER ''x'' = '']x''"
  by (simp add: str_replace_def forwardref_placeholder_def
      PEP_CODE_PITH_ROOT_PARAM_NAME_PLACEHOLDER_def
      PEP_CODE_HINT_FORWARDREF_UNQUALIFIED_PLACEHOLDER_PREFIX_def
      PEP_CODE_HINT_FORWARDREF_UNQUALIFIED_PLACEHOLDER_SUFFIX_def)










section \<open>Properties of the root-name substitution\<close>



















end
